theory Spec2Isabelle
  imports Main "HOL-Library.Sublist" "HOL-Library.Multiset" "HOL-Library.AList"
begin

section \<open>JavaScript strings and numbers\<close>

text \<open>
  Strings are lists of characters. The source works on UTF-16 code units; the model
  covers the ASCII range, where a character is one unit. Indices are \<open>int\<close>, since
  \<open>indexOf\<close> answers \<open>-1\<close> and \<open>slice\<close> accepts negative positions.
\<close>

fun indexOf :: "string \<Rightarrow> string \<Rightarrow> int" where
  "indexOf [] pat = (if pat = [] then 0 else -1)"
| "indexOf (c # cs) pat =
     (if prefix pat (c # cs) then 0
      else (let r = indexOf cs pat in if r < 0 then -1 else r + 1))"

fun lastIndexOf :: "string \<Rightarrow> string \<Rightarrow> int" where
  "lastIndexOf [] pat = (if pat = [] then 0 else -1)"
| "lastIndexOf (c # cs) pat =
     (let r = lastIndexOf cs pat in
      if 0 \<le> r then r + 1 else if prefix pat (c # cs) then 0 else -1)"

text \<open>\<open>s.slice(start)\<close> and \<open>s.slice(start, end)\<close>: a negative position counts from the end.\<close>

definition slice_pos :: "string \<Rightarrow> int \<Rightarrow> nat" where
  "slice_pos s i = (if i < 0 then nat (max 0 (int (length s) + i)) else min (nat i) (length s))"

definition slice_from :: "string \<Rightarrow> int \<Rightarrow> string" where
  "slice_from s i = drop (slice_pos s i) s"

definition slice :: "string \<Rightarrow> int \<Rightarrow> int \<Rightarrow> string" where
  "slice s i j = take (slice_pos s j - slice_pos s i) (drop (slice_pos s i) s)"

text \<open>
  Where a pattern stands in a string: \<open>u\<close> is what precedes its first occurrence,
  \<open>a\<close> and \<open>b\<close> are what precedes and what follows its last occurrence.
\<close>

definition occurs_at :: "string \<Rightarrow> string \<Rightarrow> nat \<Rightarrow> bool" where
  "occurs_at s pat i = (take (length pat) (drop i s) = pat)"

definition before_first :: "string \<Rightarrow> string \<Rightarrow> string \<Rightarrow> bool" where
  "before_first s pat u =
     (prefix u s \<and> occurs_at s pat (length u) \<and> (\<forall>i \<in> set [0 ..< length u]. \<not> occurs_at s pat i))"

definition around_last :: "string \<Rightarrow> string \<Rightarrow> string \<Rightarrow> string \<Rightarrow> bool" where
  "around_last s pat a b =
     (s = a @ pat @ b \<and> (\<forall>i \<in> set [Suc (length a) ..< Suc (length s)]. \<not> occurs_at s pat i))"

definition is_space :: "char \<Rightarrow> bool" where
  "is_space c = (c \<in> {CHR '' '', CHR 0x09, CHR 0x0A, CHR 0x0B, CHR 0x0C, CHR 0x0D})"

definition is_digit :: "char \<Rightarrow> bool" where
  "is_digit c = (48 \<le> (of_char c :: nat) \<and> (of_char c :: nat) \<le> 57)"

definition digit_val :: "char \<Rightarrow> nat" where
  "digit_val c = of_char c - 48"

definition digit_char :: "nat \<Rightarrow> char" where
  "digit_char d = char_of (48 + d)"

definition hex_val :: "char \<Rightarrow> nat option" where
  "hex_val c =
     (let k = (of_char c :: nat) in
      if is_digit c then Some (digit_val c)
      else if 97 \<le> k \<and> k \<le> 102 then Some (k - 97 + 10)
      else if 65 \<le> k \<and> k \<le> 70 then Some (k - 65 + 10)
      else None)"

text \<open>The value of a digit string in a radix, most significant digit first.\<close>

definition radix_val :: "nat \<Rightarrow> nat list \<Rightarrow> nat" where
  "radix_val r ds = foldl (\<lambda>acc d. acc * r + d) 0 ds"

text \<open>\<open>String(n)\<close> for an integer: decimal digits, a minus sign when negative.\<close>

fun nat_to_string :: "nat \<Rightarrow> string" where
  "nat_to_string n =
     (if n < 10 then [digit_char n] else nat_to_string (n div 10) @ [digit_char (n mod 10)])"

declare nat_to_string.simps [simp del]

definition int_to_string :: "int \<Rightarrow> string" where
  "int_to_string i = (if i < 0 then CHR ''-'' # nat_to_string (nat (- i)) else nat_to_string (nat i))"

text \<open>
  \<open>parseInt(s)\<close> with no radix: leading white space is skipped, a sign is read, a
  \<open>0x\<close>/\<open>0X\<close> prefix selects radix 16, and the longest run of digits of the radix is
  the value. \<open>None\<close> is \<open>NaN\<close> (no digit). Doubles hold integers exactly up to
  \<open>2^53\<close>; the model is exact and the theorems below stay within that range.
\<close>

definition parseInt :: "string \<Rightarrow> int option" where
  "parseInt s =
     (let t = dropWhile is_space s;
          neg = (t \<noteq> [] \<and> hd t = CHR ''-'');
          u = (if t \<noteq> [] \<and> (hd t = CHR ''-'' \<or> hd t = CHR ''+'') then tl t else t);
          hex = (prefix ''0x'' u \<or> prefix ''0X'' u);
          ds = (if hex then map (the \<circ> hex_val) (takeWhile (\<lambda>c. hex_val c \<noteq> None) (drop 2 u))
                else map digit_val (takeWhile is_digit u));
          v = int (radix_val (if hex then 16 else 10) ds)
      in if ds = [] then None else Some (if neg then - v else v))"

section \<open>The transcription loader\<close>

text \<open>
  One record of the JSON answer: \<open>{pk: ..., fields: {order: ..., transcription: ...}}\<close>.
\<close>

record transcription =
  pk :: int
  order :: string
  transcription_text :: string

text \<open>
  \<open>data.sort(function(a, b) {return parseInt(a.fields.order) - parseInt(b.fields.order)})\<close>.
  \<open>Array.prototype.sort\<close> is stable, and with a consistent comparator its result is
  the stable ordering by the compared key. When some \<open>order\<close> parses to \<open>NaN\<close> the
  comparator is not consistent and the language leaves the order to the implementation:
  the model answers \<open>None\<close> there.
\<close>

definition order_key :: "transcription \<Rightarrow> int" where
  "order_key t = (case parseInt (order t) of Some n \<Rightarrow> n | None \<Rightarrow> 0)"

definition orderedData :: "transcription list \<Rightarrow> transcription list option" where
  "orderedData data =
     (if list_all (\<lambda>t. parseInt (order t) \<noteq> None) data
      then Some (sort_key order_key data) else None)"

text \<open>The markup written for the record at position \<open>i\<close> of the ordered list.\<close>

definition field_markup :: "nat \<Rightarrow> transcription \<Rightarrow> string" where
  "field_markup i t =
     ''<input type=\"hidden\" name=\"transcription-'' @ nat_to_string i @ ''-id\" value=\"''
       @ int_to_string (pk t) @ ''\" id=\"id_transcription-'' @ nat_to_string i
       @ ''-id\" aria-label=\"input field\">'' @ [CHR 0x0A] @ replicate 28 CHR '' ''
       @ ''<textarea name=\"transcription-'' @ nat_to_string i
       @ ''-transcription\" class=\"richtext-transcription\" rows=\"8\" id=\"id_transcription-''
       @ nat_to_string i @ ''-transcription\" cols=\"40\" aria-label=\"richtext field\">''
       @ transcription_text t @ ''</textarea>''"

text \<open>
  The \<open>forEach\<close> loop appends one piece of markup per record, in the order of the
  sorted array, with the running index.
\<close>

fun forEach_markup :: "nat \<Rightarrow> transcription list \<Rightarrow> string \<Rightarrow> string" where
  "forEach_markup i [] acc = acc"
| "forEach_markup i (t # ts) acc = forEach_markup (Suc i) ts (acc @ field_markup i t)"

text \<open>
  The body of the response callback of \<open>fetchTranscriptions\<close>: the markup appended to
  \<open>#transcription\<close>. The fetch itself, the editor and the pager are outside the model.
\<close>

definition fetchTranscriptions :: "transcription list \<Rightarrow> string option" where
  "fetchTranscriptions data = map_option (\<lambda>od. forEach_markup 0 od []) (orderedData data)"

section \<open>The document tree\<close>

text \<open>
  The handlers read and write the DOM. An element carries its tag (lower case), its
  attributes in order, and the state the handlers touch that is not an attribute: the
  \<open>checked\<close> property, the inline \<open>display: none\<close> that \<open>.hide()\<close> sets and
  \<open>.show()\<close> lifts, and the value written by \<open>.val(v)\<close>. The root of the tree is the
  document node; selectors never match it and no traversal reaches it.
\<close>

record props =
  tag :: string
  attrs :: "(string \<times> string) list"
  checked :: bool
  hidden :: bool
  dirty_value :: "string option"

datatype node = Elem props "node list" | Text string

primrec kids :: "node \<Rightarrow> node list" where
  "kids (Elem pr ks) = ks"
| "kids (Text s) = []"

text \<open>
  An element is addressed by the child indices on the way from the document node. The
  address of an element is stable as long as nothing is inserted or removed before it.
\<close>

type_synonym path = "nat list"

fun node_at :: "node \<Rightarrow> path \<Rightarrow> node option" where
  "node_at n [] = Some n"
| "node_at n (i # p) = (if i < length (kids n) then node_at (kids n ! i) p else None)"

definition props_at :: "node \<Rightarrow> path \<Rightarrow> props option" where
  "props_at d p = (case node_at d p of Some (Elem pr ks) \<Rightarrow> Some pr | _ \<Rightarrow> None)"

text \<open>The elements of a tree in document order; text nodes are not elements.\<close>

fun elem_paths :: "node \<Rightarrow> path list" and kid_paths :: "nat \<Rightarrow> node list \<Rightarrow> path list" where
  "elem_paths (Elem pr ks) = [] # kid_paths 0 ks"
| "elem_paths (Text s) = []"
| "kid_paths i [] = []"
| "kid_paths i (k # ks) = map ((#) i) (elem_paths k) @ kid_paths (Suc i) ks"

definition elements :: "node \<Rightarrow> path list" where
  "elements d = kid_paths 0 (kids d)"

text \<open>An element with no state beyond its attributes, as markup describes it.\<close>

definition elem :: "string \<Rightarrow> (string \<times> string) list \<Rightarrow> node list \<Rightarrow> node" where
  "elem t as ks =
     Elem \<lparr>tag = t, attrs = as, checked = False, hidden = False, dirty_value = None\<rparr> ks"

subsection \<open>Attributes and classes\<close>

definition attr :: "props \<Rightarrow> string \<Rightarrow> string option" where
  "attr pr a = map_of (attrs pr) a"

text \<open>
  The \<open>type\<close> of an input is read without regard to the case of its ASCII letters:
  \<open>elem.type\<close> is the keyword in lower case, and in an HTML document a selector
  \<open>[type=...]\<close> compares the attribute in the same way.
\<close>

definition ascii_lower :: "char \<Rightarrow> char" where
  "ascii_lower c =
     (if 65 \<le> (of_char c :: nat) \<and> (of_char c :: nat) \<le> 90
      then char_of ((of_char c :: nat) + 32) else c)"

definition type_keyword :: "props \<Rightarrow> string" where
  "type_keyword pr = (case attr pr ''type'' of Some t \<Rightarrow> map ascii_lower t | None \<Rightarrow> [])"

definition set_attr :: "string \<Rightarrow> string \<Rightarrow> props \<Rightarrow> props" where
  "set_attr a v pr = pr\<lparr>attrs := AList.update a v (attrs pr)\<rparr>"

text \<open>
  Class names are the words of the \<open>class\<close> attribute, separated by HTML white space
  (space, tab, line feed, form feed, carriage return).
\<close>

definition is_html_space :: "char \<Rightarrow> bool" where
  "is_html_space c = (c \<in> {CHR '' '', CHR 0x09, CHR 0x0A, CHR 0x0C, CHR 0x0D})"

fun words_from :: "string \<Rightarrow> string \<Rightarrow> string list" where
  "words_from cur [] = (if cur = [] then [] else [cur])"
| "words_from cur (c # cs) =
     (if is_html_space c then (if cur = [] then words_from [] cs else cur # words_from [] cs)
      else words_from (cur @ [c]) cs)"

definition split_words :: "string \<Rightarrow> string list" where
  "split_words s = words_from [] s"

fun join_words :: "string list \<Rightarrow> string" where
  "join_words [] = []"
| "join_words [w] = w"
| "join_words (w # v # ws) = w @ CHR '' '' # join_words (v # ws)"

text \<open>A word that can stand in a class attribute: not empty, no white space.\<close>

definition clean_word :: "string \<Rightarrow> bool" where
  "clean_word w = (w \<noteq> [] \<and> list_all (\<lambda>c. \<not> is_html_space c) w)"

text \<open>
  jQuery's \<open>getClass\<close>, \<open>hasClass\<close>, \<open>addClass\<close>, \<open>removeClass\<close> and
  \<open>toggleClass\<close> for one class name. The attribute is rewritten, with its words joined
  by single spaces, only when that differs from what is there.
\<close>

definition getClass :: "props \<Rightarrow> string" where
  "getClass pr = (case attr pr ''class'' of Some s \<Rightarrow> s | None \<Rightarrow> [])"

definition class_list :: "props \<Rightarrow> string list" where
  "class_list pr = split_words (getClass pr)"

definition hasClass :: "string \<Rightarrow> props \<Rightarrow> bool" where
  "hasClass c pr = (c \<in> set (class_list pr))"

definition put_classes :: "string list \<Rightarrow> props \<Rightarrow> props" where
  "put_classes ws pr = (if getClass pr = join_words ws then pr else set_attr ''class'' (join_words ws) pr)"

definition addClass :: "string \<Rightarrow> props \<Rightarrow> props" where
  "addClass c pr =
     put_classes (if c \<in> set (class_list pr) then class_list pr else class_list pr @ [c]) pr"

definition removeClass :: "string \<Rightarrow> props \<Rightarrow> props" where
  "removeClass c pr = put_classes (filter (\<lambda>w. w \<noteq> c) (class_list pr)) pr"

definition toggleClass :: "string \<Rightarrow> props \<Rightarrow> props" where
  "toggleClass c pr = (if hasClass c pr then removeClass c pr else addClass c pr)"

definition hide_elem :: "props \<Rightarrow> props" where
  "hide_elem pr = pr\<lparr>hidden := True\<rparr>"

definition show_elem :: "props \<Rightarrow> props" where
  "show_elem pr = pr\<lparr>hidden := False\<rparr>"

definition set_checked :: "bool \<Rightarrow> props \<Rightarrow> props" where
  "set_checked b pr = pr\<lparr>checked := b\<rparr>"

definition set_val :: "string \<Rightarrow> props \<Rightarrow> props" where
  "set_val v pr = pr\<lparr>dirty_value := Some v\<rparr>"

text \<open>
  \<open>.val()\<close> of an input: the value written last, else the \<open>value\<close> attribute, else
  the default of the input type (\<open>on\<close> for a check box or radio button).
\<close>

definition get_val :: "props \<Rightarrow> string" where
  "get_val pr =
     (case dirty_value pr of Some v \<Rightarrow> v
      | None \<Rightarrow> (case attr pr ''value'' of Some v \<Rightarrow> v
          | None \<Rightarrow> (if type_keyword pr = ''checkbox'' \<or> type_keyword pr = ''radio''
                      then ''on'' else [])))"

subsection \<open>Selectors\<close>

text \<open>
  The selector strings of the source, parsed: a compound selector is a list of simple
  selectors that must all hold of one element. The combinators of the source
  (\<open>A > B\<close>, \<open>A B\<close>) are written below with \<open>children\<close> and \<open>find\<close>.
\<close>

datatype simple_sel =
    Tag string
  | Cls string
  | Ident string
  | Has string
  | AttrEq string string
  | AttrContains string string
  | AttrEnds string string
  | AttrWord string string
  | PseudoChecked
  | PseudoRadio

type_synonym selector = "simple_sel list"

fun match1 :: "props \<Rightarrow> simple_sel \<Rightarrow> bool" where
  "match1 pr (Tag t) = (tag pr = t)"
| "match1 pr (Cls c) = hasClass c pr"
| "match1 pr (Ident i) = (attr pr ''id'' = Some i)"
| "match1 pr (Has a) = (attr pr a \<noteq> None)"
| "match1 pr (AttrEq a v) =
     (case attr pr a of
        Some s \<Rightarrow> if a = ''type'' then map ascii_lower s = map ascii_lower v else s = v
      | None \<Rightarrow> False)"
| "match1 pr (AttrContains a v) =
     (case attr pr a of Some s \<Rightarrow> v \<noteq> [] \<and> 0 \<le> indexOf s v | None \<Rightarrow> False)"
| "match1 pr (AttrEnds a v) =
     (case attr pr a of Some s \<Rightarrow> v \<noteq> [] \<and> suffix v s | None \<Rightarrow> False)"
| "match1 pr (AttrWord a v) =
     (case attr pr a of Some s \<Rightarrow> v \<in> set (split_words s) | None \<Rightarrow> False)"
| "match1 pr PseudoChecked =
     (tag pr = ''input'' \<and> (type_keyword pr = ''checkbox'' \<or> type_keyword pr = ''radio'')
      \<and> checked pr)"
| "match1 pr PseudoRadio = (tag pr = ''input'' \<and> type_keyword pr = ''radio'')"

definition matches :: "selector \<Rightarrow> props \<Rightarrow> bool" where
  "matches sel pr = list_all (match1 pr) sel"

definition sel_at :: "node \<Rightarrow> selector \<Rightarrow> path \<Rightarrow> bool" where
  "sel_at d sel p = (case props_at d p of Some pr \<Rightarrow> matches sel pr | None \<Rightarrow> False)"

subsection \<open>jQuery sets and traversal\<close>

text \<open>
  A jQuery set is a list of addresses without repetition, in document order (reversed
  for \<open>parents\<close>, as jQuery does). Each traversal is a filter over the elements of the
  document, which gives both at once.
\<close>

definition jq :: "node \<Rightarrow> selector \<Rightarrow> path list" where
  "jq d sel = filter (sel_at d sel) (elements d)"

text \<open>\<open>$('#id')\<close> alone is \<open>getElementById\<close>: the first element with the id.\<close>

definition jq_id :: "node \<Rightarrow> string \<Rightarrow> path list" where
  "jq_id d i = take 1 (jq d [Ident i])"

definition children :: "node \<Rightarrow> path list \<Rightarrow> selector \<Rightarrow> path list" where
  "children d S sel =
     filter (\<lambda>q. q \<noteq> [] \<and> butlast q \<in> set S \<and> sel_at d sel q) (elements d)"

definition find_in :: "node \<Rightarrow> path list \<Rightarrow> selector \<Rightarrow> path list" where
  "find_in d S sel =
     filter (\<lambda>q. (\<exists>p \<in> set S. strict_prefix p q) \<and> sel_at d sel q) (elements d)"

definition parent :: "node \<Rightarrow> path list \<Rightarrow> selector \<Rightarrow> path list" where
  "parent d S sel =
     filter (\<lambda>q. (\<exists>p \<in> set S. p \<noteq> [] \<and> butlast p = q) \<and> sel_at d sel q) (elements d)"

definition parents :: "node \<Rightarrow> path list \<Rightarrow> selector \<Rightarrow> path list" where
  "parents d S sel =
     rev (filter (\<lambda>q. (\<exists>p \<in> set S. strict_prefix q p) \<and> sel_at d sel q) (elements d))"

text \<open>The nearest of the element and its ancestors that matches.\<close>

definition closest1 :: "node \<Rightarrow> selector \<Rightarrow> path \<Rightarrow> path option" where
  "closest1 d sel p = List.find (\<lambda>q. q \<noteq> [] \<and> sel_at d sel q) (rev (prefixes p))"

definition closest :: "node \<Rightarrow> path list \<Rightarrow> selector \<Rightarrow> path list" where
  "closest d S sel = filter (\<lambda>q. \<exists>p \<in> set S. closest1 d sel p = Some q) (elements d)"

definition siblings :: "node \<Rightarrow> path list \<Rightarrow> path list" where
  "siblings d S =
     filter (\<lambda>q. \<exists>p \<in> set S. p \<noteq> [] \<and> q \<noteq> [] \<and> p \<noteq> q \<and> butlast p = butlast q) (elements d)"

text \<open>
  The next sibling that is an element, whatever text lies between: the first element
  in document order with the same parent and a greater index.
\<close>

definition next1 :: "node \<Rightarrow> path \<Rightarrow> path option" where
  "next1 d p =
     (if p = [] then None
      else List.find (\<lambda>q. q \<noteq> [] \<and> butlast q = butlast p \<and> last p < last q) (elements d))"

definition next_sib :: "node \<Rightarrow> path list \<Rightarrow> selector \<Rightarrow> path list" where
  "next_sib d S sel =
     filter (\<lambda>q. (\<exists>p \<in> set S. next1 d p = Some q) \<and> sel_at d sel q) (elements d)"

definition first :: "path list \<Rightarrow> path list" where
  "first S = take 1 S"

definition last_of :: "path list \<Rightarrow> path list" where
  "last_of S = (if S = [] then [] else [last S])"

definition is_sel :: "node \<Rightarrow> path list \<Rightarrow> selector \<Rightarrow> bool" where
  "is_sel d S sel = list_ex (sel_at d sel) S"

definition any_hasClass :: "node \<Rightarrow> path list \<Rightarrow> string \<Rightarrow> bool" where
  "any_hasClass d S c = list_ex (\<lambda>p. case props_at d p of Some pr \<Rightarrow> hasClass c pr | None \<Rightarrow> False) S"

text \<open>
  \<open>.attr(name)\<close> of a set reads the first element; \<open>None\<close> is \<open>undefined\<close> (an empty
  set, or no such attribute).
\<close>

definition attr_of :: "node \<Rightarrow> path list \<Rightarrow> string \<Rightarrow> string option" where
  "attr_of d S a =
     (case S of [] \<Rightarrow> None
      | p # _ \<Rightarrow> (case props_at d p of Some pr \<Rightarrow> attr pr a | None \<Rightarrow> None))"

subsection \<open>Writing to the elements of a set\<close>

fun update_at :: "path \<Rightarrow> (props \<Rightarrow> props) \<Rightarrow> node \<Rightarrow> node" where
  "update_at [] f (Elem pr ks) = Elem (f pr) ks"
| "update_at (i # p) f (Elem pr ks) =
     Elem pr (if i < length ks then ks[i := update_at p f (ks ! i)] else ks)"
| "update_at p f (Text s) = Text s"

definition each :: "node \<Rightarrow> path list \<Rightarrow> (props \<Rightarrow> props) \<Rightarrow> node" where
  "each d S f = foldr (\<lambda>p. update_at p f) S d"

text \<open>
  Setting \<open>checked\<close> on a radio button clears the other radio buttons of its group:
  those of the same non-empty name with the same form owner (the nearest enclosing
  \<open>form\<close>, or none). Clearing \<open>checked\<close> has no such effect.
\<close>

definition radio_group :: "node \<Rightarrow> path \<Rightarrow> path list" where
  "radio_group d p =
     (case props_at d p of
        None \<Rightarrow> []
      | Some pr \<Rightarrow>
          if matches [PseudoRadio] pr \<and> attr pr ''name'' \<noteq> None \<and> attr pr ''name'' \<noteq> Some []
          then filter (\<lambda>q. q \<noteq> p \<and> sel_at d [PseudoRadio, AttrEq ''name'' (the (attr pr ''name''))] q
                         \<and> closest1 d [Tag ''form''] q = closest1 d [Tag ''form''] p)
                 (elements d)
          else [])"

definition check_at :: "path \<Rightarrow> node \<Rightarrow> node" where
  "check_at p d = each (update_at p (set_checked True) d) (radio_group d p) (set_checked False)"

definition prop_checked :: "node \<Rightarrow> path list \<Rightarrow> bool \<Rightarrow> node" where
  "prop_checked d S b =
     (if b then foldl (\<lambda>e p. check_at p e) d S else each d S (set_checked False))"

subsection \<open>Inserting and removing\<close>

fun update_kids_at :: "path \<Rightarrow> (node list \<Rightarrow> node list) \<Rightarrow> node \<Rightarrow> node" where
  "update_kids_at [] g (Elem pr ks) = Elem pr (g ks)"
| "update_kids_at (i # p) g (Elem pr ks) =
     Elem pr (if i < length ks then ks[i := update_kids_at p g (ks ! i)] else ks)"
| "update_kids_at p g (Text s) = Text s"

text \<open>
  \<open>.append(content)\<close> puts the content after the last child of every element of the
  set (a copy for each); addresses of what was there do not move.
\<close>

definition append_to :: "node \<Rightarrow> path list \<Rightarrow> node list \<Rightarrow> node" where
  "append_to d S new = foldr (\<lambda>p. update_kids_at p (\<lambda>ks. ks @ new)) S d"

text \<open>
  \<open>.after(content)\<close> and \<open>.remove()\<close> work from the last element of the set to the
  first, so that the addresses still to be visited stay valid. The document node has
  no siblings and is never removed.
\<close>

definition insert_after :: "node list \<Rightarrow> path \<Rightarrow> node \<Rightarrow> node" where
  "insert_after new p d =
     (if p = [] then d
      else update_kids_at (butlast p) (\<lambda>ks. take (Suc (last p)) ks @ new @ drop (Suc (last p)) ks) d)"

definition after :: "node \<Rightarrow> path list \<Rightarrow> node list \<Rightarrow> node" where
  "after d S new = foldr (insert_after new) S d"

definition remove_at :: "path \<Rightarrow> node \<Rightarrow> node" where
  "remove_at p d =
     (if p = [] then d
      else update_kids_at (butlast p) (\<lambda>ks. take (last p) ks @ drop (Suc (last p)) ks) d)"

definition remove :: "node \<Rightarrow> path list \<Rightarrow> node" where
  "remove d S = foldr remove_at S d"

text \<open>
  An element keeps its identity when a sibling before it is inserted or removed, but
  not its address. These give the address afterwards of what stood at \<open>q\<close>: after the
  element at \<open>r\<close> is removed (\<open>None\<close> for what was removed with it), and after \<open>m\<close>
  nodes are inserted behind the element at \<open>r\<close>.
\<close>

definition addr_after_remove :: "path \<Rightarrow> path \<Rightarrow> path option" where
  "addr_after_remove r q =
     (if r = [] then Some q
      else if prefix r q then None
      else if strict_prefix (butlast r) q \<and> last r < q ! (length r - 1)
      then Some (q[length r - 1 := q ! (length r - 1) - 1])
      else Some q)"

definition addr_after_insert :: "path \<Rightarrow> nat \<Rightarrow> path \<Rightarrow> path" where
  "addr_after_insert r m q =
     (if r \<noteq> [] \<and> strict_prefix (butlast r) q \<and> last r < q ! (length r - 1)
      then q[length r - 1 := q ! (length r - 1) + m]
      else q)"

text \<open>The address before the removal, or the insertion, of what stands at \<open>q\<close> afterwards.\<close>

definition addr_before_remove :: "path \<Rightarrow> path \<Rightarrow> path" where
  "addr_before_remove r q =
     (if r \<noteq> [] \<and> strict_prefix (butlast r) q \<and> last r \<le> q ! (length r - 1)
      then q[length r - 1 := q ! (length r - 1) + 1]
      else q)"

definition addr_before_insert :: "path \<Rightarrow> nat \<Rightarrow> path \<Rightarrow> path option" where
  "addr_before_insert r m q =
     (if r \<noteq> [] \<and> strict_prefix (butlast r) q \<and> last r < q ! (length r - 1)
      then (if q ! (length r - 1) \<le> last r + m then None
            else Some (q[length r - 1 := q ! (length r - 1) - m]))
      else Some q)"

text \<open>Document order of addresses: an element comes before what it contains, and
  before its later siblings and what they contain.\<close>

fun doc_before :: "path \<Rightarrow> path \<Rightarrow> bool" where
  "doc_before [] [] = False"
| "doc_before [] (j # q) = True"
| "doc_before (i # p) [] = False"
| "doc_before (i # p) (j # q) = (i < j \<or> i = j \<and> doc_before p q)"

section \<open>The handlers\<close>

text \<open>
  Each handler is a function from the document (and the element the event names) to
  the document it leaves. \<open>event.preventDefault()\<close> has no effect on the tree. A click
  handler runs after the browser has applied the click to the control, so the document
  it is given already holds the new \<open>checked\<close> state of the clicked control.
\<close>

subsection \<open>Primary record of the duplicates table\<close>

text \<open>
  The handler bound by \<open>$('#duplicates-table').on('click', '[name="primary_record"]', ...)\<close>;
  \<open>target\<close> is the clicked radio button. \<open>$('.primary-cell > label')\<close> is the label
  children of the elements of class \<open>primary-cell\<close>.
\<close>

definition primary_record_click :: "node \<Rightarrow> path \<Rightarrow> node" where
  "primary_record_click d target =
     (let d1 = each d (jq d [Cls ''primary-cell'']) (removeClass ''border-left'');
          d2 = each d1 (children d1 (jq d1 [Cls ''primary-cell'']) [Tag ''label''])
                 (removeClass ''selected'');
          d3 = each d2 (children d2 (jq d2 [Cls ''duplicate-cell'']) [Tag ''label''])
                 (removeClass ''disabled'');
          d4 = each d3 (children d3 (jq d3 [Cls ''duplicate-cell'']) [Tag ''label'']) show_elem;
          d5 = each d4 (closest d4 [target] [Cls ''primary-cell'']) (addClass ''border-left'')
      in if is_sel d5 [target] [PseudoChecked] then
           (let d6 = each d5 (parent d5 [target] [Tag ''label'']) (addClass ''selected'');
                d7 = prop_checked d6
                       (find_in d6
                          (next_sib d6 (closest d6 [target] [Cls ''primary-cell''])
                             [Cls ''duplicate-cell''])
                          [Tag ''input'', AttrEq ''type'' ''radio'', PseudoChecked])
                       False;
                d8 = each d7
                       (children d7
                          (next_sib d7 (closest d7 [target] [Cls ''primary-cell''])
                             [Cls ''duplicate-cell''])
                          [Tag ''label''])
                       (addClass ''disabled'')
            in d8)
         else d5)"

subsection \<open>Preferred and authorised flags\<close>

text \<open>
  The handlers bound on the document for \<open>input[name*="preferred"]\<close> and
  \<open>input[name*="authorised"]\<close>; \<open>target\<close> is the clicked input.
\<close>

definition preferred_click :: "node \<Rightarrow> path \<Rightarrow> node" where
  "preferred_click d target =
     (let d1 = prop_checked d
                 (find_in d (siblings d (parents d [target] [Tag ''fieldset'']))
                    [Tag ''input'', AttrContains ''name'' ''preferred'', PseudoChecked])
                 False;
          d2 = prop_checked d1
                 (find_in d1 (closest d1 [target] [Tag ''fieldset''])
                    [Tag ''input'', AttrContains ''name'' ''preferred''])
                 True;
          d3 = each d2 (siblings d2 (parents d2 [target] [Tag ''fieldset'']))
                 (removeClass ''border-left'')
      in if is_sel d3 [target] [PseudoChecked]
         then each d3 (closest d3 [target] [Tag ''fieldset'']) (addClass ''border-left'')
         else d3)"

definition authorised_click :: "node \<Rightarrow> path \<Rightarrow> node" where
  "authorised_click d target =
     (let d1 = prop_checked d
                 (find_in d (siblings d (closest d [target] [Tag ''fieldset'']))
                    [Tag ''input'', AttrContains ''name'' ''authorised'', PseudoChecked])
                 False;
          d2 = prop_checked d1
                 (find_in d1 (closest d1 [target] [Tag ''fieldset''])
                    [Tag ''input'', AttrContains ''name'' ''authorised''])
                 True;
          d3 = each d2 (siblings d2 (closest d2 [target] [Tag ''fieldset'']))
                 (removeClass ''border-left'')
      in if is_sel d3 [target] [PseudoChecked]
         then each d3 (closest d3 [target] [Tag ''fieldset'']) (addClass ''border-left'')
         else d3)"

subsection \<open>Hiding a field\<close>

text \<open>\<open>deleteField(el, toDelete)\<close>; \<open>toDelete\<close> is a selector.\<close>

definition deleteField :: "node \<Rightarrow> path \<Rightarrow> selector \<Rightarrow> node" where
  "deleteField d el toDelete =
     (let d1 = each d (closest d [el] toDelete) (addClass ''none'');
          d2 = each d1 (children d1 (first (parents d1 [el] [Cls ''formset''])) [Tag ''label''])
                 show_elem
      in d2)"

section \<open>Adding a form to a formset\<close>

subsection \<open>Numbers read from attributes\<close>

text \<open>
  \<open>Number(v)\<close>, and the conversion a comparison applies to a string operand. An absent
  attribute is \<open>undefined\<close> and converts to \<open>NaN\<close>. A string of decimal digits (the
  empty string included, which is \<open>0\<close>) converts to its value; the model covers
  strings of up to fifteen digits, which a double holds exactly, and answers \<open>None\<close>
  for every other string, whose conversion (a fraction, an exponent, a sign, white space,
  \<open>NaN\<close>) it does not model.
\<close>

datatype jsnum = NaN | Num nat

definition to_number :: "string option \<Rightarrow> jsnum option" where
  "to_number v =
     (case v of
        None \<Rightarrow> Some NaN
      | Some s \<Rightarrow>
          if list_all is_digit s \<and> length s \<le> 15
          then Some (Num (radix_val 10 (map digit_val s))) else None)"

fun js_succ :: "jsnum \<Rightarrow> jsnum" where
  "js_succ NaN = NaN"
| "js_succ (Num n) = Num (n + 1)"

fun js_ge :: "jsnum \<Rightarrow> jsnum \<Rightarrow> bool" where
  "js_ge (Num a) (Num b) = (b \<le> a)"
| "js_ge a b = False"

fun number_to_string :: "jsnum \<Rightarrow> string" where
  "number_to_string NaN = ''NaN''"
| "number_to_string (Num n) = nat_to_string n"

subsection \<open>Exceptions and widgets\<close>

text \<open>
  Calling \<open>slice\<close> or \<open>lastIndexOf\<close> on \<open>undefined\<close> throws a \<open>TypeError\<close>, and
  jQuery throws an error (\<open>Syntax error, unrecognized expression\<close>) for a string that
  is not a selector. An exception ends the function where it stands: the result then
  carries the document as it is at that moment. \<open>Unmodelled\<close> carries the document
  at the moment from which the function goes on in a way the model does not describe.
\<close>

datatype js_error = TypeError | SelectorError

datatype 'a completion = Normal 'a | Throw js_error 'a | Unmodelled 'a

fun state_of :: "'a completion \<Rightarrow> 'a" where
  "state_of (Normal s) = s"
| "state_of (Throw err s) = s"
| "state_of (Unmodelled s) = s"

text \<open>
  The widget libraries are collaborators outside the model: a call to one is recorded,
  and the markup it adds on its own is not part of the tree. A control is recorded by
  its \<open>name\<close> attribute at the time of the call, an editor by the \<open>id\<close> it is given.
\<close>

datatype widget_call =
    Select2Ajax string
  | Select2 string
  | TinyMCE string
  | Select2Autocomplete "path list"

subsection \<open>The helpers of \<open>addEmptyForm\<close>\<close>

definition getManagementFormContainer :: "node \<Rightarrow> path list \<Rightarrow> path list" where
  "getManagementFormContainer d context =
     children d (first (parents d context [Cls ''formset''])) [Tag ''div'', Cls ''management_form'']"

definition getNewFormParent :: "node \<Rightarrow> path list \<Rightarrow> path list" where
  "getNewFormParent d context =
     last_of (children d (first (parents d context [Cls ''formset''])) [Tag ''div'', Cls ''fieldsets''])"

definition generateNewFormPrefix :: "node \<Rightarrow> path list \<Rightarrow> string \<Rightarrow> jsnum \<Rightarrow> js_error + string" where
  "generateNewFormPrefix d control attrName prefixNumber =
     (case attr_of d control attrName of
        None \<Rightarrow> Inl TypeError
      | Some attrValue \<Rightarrow>
          Inr (slice attrValue 0 (indexOf attrValue ''TOTAL_FORMS'') @ number_to_string prefixNumber))"

definition initAutocompleteWidgets :: "node \<Rightarrow> widget_call" where
  "initAutocompleteWidgets d =
     Select2Autocomplete
       (filter (\<lambda>p. \<not> sel_at d [AttrContains ''name'' ''__prefix__''] p) (jq d [Cls ''autocomplete'']))"

text \<open>
  The body of \<open>newControls.each\<close> for the control at one address: the two \<open>attr\<close>
  callbacks in turn, then the widgets the control asks for.
\<close>

definition new_attr :: "string \<Rightarrow> string \<Rightarrow> string" where
  "new_attr newFormPrefix val =
     newFormPrefix @ slice_from val (lastIndexOf val ''__prefix__'' + int (length ''__prefix__''))"

definition control_widgets :: "props \<Rightarrow> widget_call list" where
  "control_widgets pr =
     (case attr pr ''data-voc-prefix'' of
        Some (c # cs) \<Rightarrow> [Select2Ajax (case attr pr ''name'' of Some n \<Rightarrow> n | None \<Rightarrow> [])]
      | _ \<Rightarrow> [])
     @ (if hasClass ''select-with-search-dynamic'' pr
        then [Select2 (case attr pr ''name'' of Some n \<Rightarrow> n | None \<Rightarrow> [])] else [])
     @ (if hasClass ''richtext'' pr
        then [TinyMCE (case attr pr ''id'' of Some i \<Rightarrow> i | None \<Rightarrow> [])] else [])"

definition control_step ::
  "string \<Rightarrow> string \<Rightarrow> path \<Rightarrow> node \<times> widget_call list \<Rightarrow> (node \<times> widget_call list) completion" where
  "control_step newFormPrefixName newFormPrefixId p st =
     (case st of (e, log) \<Rightarrow>
       (case props_at e p of
          None \<Rightarrow> Normal (e, log)
        | Some pr \<Rightarrow>
            (case attr pr ''name'' of
               None \<Rightarrow> Throw TypeError (e, log)
             | Some nv \<Rightarrow>
                 (let e1 = update_at p (set_attr ''name'' (new_attr newFormPrefixName nv)) e in
                  case attr_of e1 [p] ''id'' of
                    None \<Rightarrow> Throw TypeError (e1, log)
                  | Some iv \<Rightarrow>
                      (let e2 = update_at p (set_attr ''id'' (new_attr newFormPrefixId iv)) e1
                       in Normal (e2, log @ (case props_at e2 p of Some pr2 \<Rightarrow> control_widgets pr2
                                              | None \<Rightarrow> [])))))))"

fun each_control ::
  "string \<Rightarrow> string \<Rightarrow> path list \<Rightarrow> node \<times> widget_call list \<Rightarrow> (node \<times> widget_call list) completion" where
  "each_control pn pi [] st = Normal st"
| "each_control pn pi (p # ps) st =
     (case control_step pn pi p st of
        Normal st' \<Rightarrow> each_control pn pi ps st'
      | Throw err st' \<Rightarrow> Throw err st'
      | Unmodelled st' \<Rightarrow> Unmodelled st')"

text \<open>
  Everything of \<open>addEmptyForm\<close> after the clones are made. \<open>e\<close> is the tree that holds
  the clones at the addresses \<open>newForm\<close>: the document when they were appended to a
  parent, a loose fragment when there was no parent to append to.
\<close>

definition fill_new_form ::
  "node \<Rightarrow> path list \<Rightarrow> node \<Rightarrow> path list \<Rightarrow> jsnum \<Rightarrow> (node \<times> widget_call list) completion" where
  "fill_new_form e newForm d totalControl newFormPrefixNumber =
     (let newControls = find_in e newForm [AttrContains ''name'' ''__prefix__''] in
      case generateNewFormPrefix d totalControl ''name'' newFormPrefixNumber of
        Inl err \<Rightarrow> Throw err (e, [])
      | Inr newFormPrefixName \<Rightarrow>
          (case generateNewFormPrefix d totalControl ''id'' newFormPrefixNumber of
             Inl err \<Rightarrow> Throw err (e, [])
           | Inr newFormPrefixId \<Rightarrow>
               each_control newFormPrefixName newFormPrefixId newControls (e, [])))"

subsection \<open>The selector made from the form type\<close>

text \<open>
  \<open>'*[data-form-type=' + formType + ']'\<close> is given to jQuery as a selector. A value
  without quotes must be an identifier, which may have white space around it; the
  model reads the identifiers made of ASCII letters, digits, \<open>_\<close> and \<open>-\<close>. For a
  string of such characters and white space: one word is the value an element must have
  in its \<open>data-form-type\<close> attribute; no word, or several, is not a selector and jQuery
  throws, except that an identifier followed by \<open>i\<close> or \<open>s\<close> is a selector with a
  modifier for browsers that know one, which the model does not follow. Strings with
  other characters (quotes, escapes, a closing bracket with more selectors behind it,
  letters outside ASCII) are not parsed by the model either.
\<close>

definition is_ident_char :: "char \<Rightarrow> bool" where
  "is_ident_char c =
     ((48 \<le> (of_char c :: nat) \<and> (of_char c :: nat) \<le> 57)
      \<or> (65 \<le> (of_char c :: nat) \<and> (of_char c :: nat) \<le> 90)
      \<or> (97 \<le> (of_char c :: nat) \<and> (of_char c :: nat) \<le> 122)
      \<or> c = CHR ''_'' \<or> c = CHR ''-'')"

definition selector_identifier :: "string \<Rightarrow> bool" where
  "selector_identifier s = (s \<noteq> [] \<and> list_all is_ident_char s)"

datatype selector_parse = Parsed selector | Malformed | Unparsed

definition data_form_type_selector :: "string \<Rightarrow> selector_parse" where
  "data_form_type_selector formType =
     (if list_all (\<lambda>c. is_ident_char c \<or> is_html_space c) formType
      then (case split_words formType of
              [w] \<Rightarrow> Parsed [AttrEq ''data-form-type'' w]
            | [w, m] \<Rightarrow> if m \<in> {''i'', ''I'', ''s'', ''S''} then Unparsed else Malformed
            | _ \<Rightarrow> Malformed)
      else Unparsed)"

text \<open>
  \<open>addEmptyForm(formType, context)\<close>. The selector for the blueprint is read after the
  label was hidden and the parent of the new form was looked up, so that an exception
  there leaves the document with the label hidden and nothing appended or counted.
  The result is \<open>None\<close> when a counter holds a value outside the modelled numbers.
  Outside the model: the markup that the widgets add on their own, and the \<open>checked\<close>
  state of the radio buttons of one group after a copy with a checked radio button was
  inserted or renamed (the browser clears the other buttons of the group it joins); the
  model copies \<open>checked\<close> as \<open>clone\<close> does and leaves it at that.
\<close>

definition addEmptyForm ::
  "node \<Rightarrow> string \<Rightarrow> path \<Rightarrow> (node \<times> widget_call list) completion option" where
  "addEmptyForm d formType context =
     (let jContext = [context];
          managementFormContainer = getManagementFormContainer d jContext;
          maxNumControl = children d managementFormContainer
                            [Tag ''input'', AttrEnds ''name'' ''MAX_NUM_FORMS''];
          totalControl = children d managementFormContainer
                            [Tag ''input'', AttrEnds ''name'' ''TOTAL_FORMS'']
      in case (to_number (attr_of d maxNumControl ''value''),
               to_number (attr_of d totalControl ''value'')) of
           (Some maxNumForms, Some newFormPrefixNumber) \<Rightarrow>
             (let d1 = (if js_ge (js_succ newFormPrefixNumber) maxNumForms
                        then each d (parent d jContext [Tag ''label'']) hide_elem else d);
                  formParent = getNewFormParent d1 jContext
              in case data_form_type_selector formType of
                   Malformed \<Rightarrow> Some (Throw SelectorError (d1, []))
                 | Unparsed \<Rightarrow> Some (Unmodelled (d1, []))
                 | Parsed blueprint \<Rightarrow>
                     (let clones = map (\<lambda>p. the (node_at d1 p))
                                     (children d1 (jq_id d1 ''empty_forms'') blueprint);
                          filled =
                            (case formParent of
                               [] \<Rightarrow>
                                 (case fill_new_form (elem ''#fragment'' [] clones)
                                         (map (\<lambda>i. [i]) [0 ..< length clones]) d1 totalControl
                                         newFormPrefixNumber of
                                    Normal (e, log) \<Rightarrow> Normal (d1, log)
                                  | Throw err (e, log) \<Rightarrow> Throw err (d1, log)
                                  | Unmodelled (e, log) \<Rightarrow> Unmodelled (d1, log))
                             | fp # _ \<Rightarrow>
                                 (let n0 = length (kids (the (node_at d1 fp)));
                                      d2 = append_to d1 [fp] clones
                                  in fill_new_form d2
                                       (map (\<lambda>i. fp @ [i]) [n0 ..< n0 + length clones])
                                       d2 totalControl newFormPrefixNumber))
                      in Some (case filled of
                                 Throw err st \<Rightarrow> Throw err st
                               | Unmodelled st \<Rightarrow> Unmodelled st
                               | Normal (d3, log) \<Rightarrow>
                                   (let d4 = each d3 totalControl
                                               (set_attr ''value''
                                                  (number_to_string (js_succ newFormPrefixNumber)))
                                    in Normal (d4, log @ [initAutocompleteWidgets d4])))))
         | _ \<Rightarrow> None)"

section \<open>Adding a record to the duplicates table\<close>

text \<open>
  \<open>$(this).val() == record.id\<close> compares a string with a number: the string is
  converted as by \<open>Number\<close>. \<open>None\<close> when the string is outside the modelled numbers.
\<close>

definition loose_eq_number :: "string \<Rightarrow> nat \<Rightarrow> bool option" where
  "loose_eq_number v k = map_option (\<lambda>x. x = Num k) (to_number (Some v))"

text \<open>\<open>Some\<close> of all the values when every one is \<open>Some\<close>.\<close>

fun all_some :: "'a option list \<Rightarrow> 'a list option" where
  "all_some [] = Some []"
| "all_some (None # xs) = None"
| "all_some (Some x # xs) = map_option ((#) x) (all_some xs)"

text \<open>
  The markup of the new row and of the two notifications for the record id, as the
  elements and texts it denotes; text of white space only, which lies between the tags
  of the template, is left out.
\<close>

definition record_id :: nat where
  "record_id = 156"

definition duplicate_table_row :: "nat \<Rightarrow> node" where
  "duplicate_table_row rid =
     elem ''tr'' []
       [elem ''td'' [(''class'', ''button-cell primary-cell'')]
          [elem ''label'' []
             [elem ''input'' [(''type'', ''radio''), (''value'', nat_to_string rid),
                             (''name'', ''primary_record'')] [],
              Text ''Primary record'']],
        elem ''td'' [(''class'', ''duplicate-cell'')]
          [elem ''input'' [(''type'', ''radio''), (''id'', ''duplicate_'' @ nat_to_string rid),
                          (''name'', ''duplicate_'' @ nat_to_string rid), (''value'', ''true'')] [],
           elem ''label'' [(''for'', ''duplicate_'' @ nat_to_string rid), (''class'', ''disabled'')]
             [Text ''Merge with primary''],
           elem ''input'' [(''type'', ''radio''), (''id'', ''not_duplicate_'' @ nat_to_string rid),
                          (''name'', ''duplicate_'' @ nat_to_string rid), (''value'', ''false'')] [],
           elem ''label'' [(''for'', ''not_duplicate_'' @ nat_to_string rid), (''class'', ''disabled'')]
             [Text ''Not related to primary'']],
        elem ''td'' []
          [Text ''Record ID: '', elem ''span'' [(''class'', ''highlight'')] [Text (nat_to_string rid)]],
        elem ''td'' [(''class'', ''description'')]
          [elem ''a'' [(''href'', ''/editor/entities/'' @ nat_to_string rid), (''target'', ''_blank'')]
             [Text ''[entity_title]''],
           elem ''br'' [] [],
           Text (''Type: [entity_type] | Publication status: [publication_status] | ''
                 @ ''Updated: [date_updated] by [username]'')]]"

definition notification :: "string \<Rightarrow> string \<Rightarrow> node" where
  "notification cls msg =
     elem ''div'' [(''id'', ''duplicates-search-form-notification''), (''class'', cls)] [Text msg]"

definition success_notification :: "nat \<Rightarrow> node" where
  "success_notification rid =
     notification ''success-notification''
       (''The record '' @ nat_to_string rid @ '' has been added to the table.'')"

definition error_notification :: "nat \<Rightarrow> node" where
  "error_notification rid =
     notification ''error-notification''
       (''The record '' @ nat_to_string rid @ '' is already included in the table.'')"

text \<open>
  \<open>addDuplicate()\<close>. \<open>$('#duplicates-table tbody')\<close> is every \<open>tbody\<close> below an element
  of that id. The result is \<open>None\<close> when the value of a primary-record radio button is
  outside the modelled numbers.
\<close>

definition addDuplicate :: "node \<Rightarrow> node option" where
  "addDuplicate d =
     (let d1 = remove d (jq_id d ''duplicates-search-form-notification'');
          vals = map (\<lambda>p. case props_at d1 p of Some pr \<Rightarrow> loose_eq_number (get_val pr) record_id
                            | None \<Rightarrow> None)
                   (jq d1 [Tag ''input'', PseudoRadio, AttrEq ''name'' ''primary_record''])
      in case all_some vals of
           None \<Rightarrow> None
         | Some found \<Rightarrow>
             (let exists = list_ex (\<lambda>b. b) found in
              if \<not> exists then
                (let d2 = append_to d1 (find_in d1 (jq d1 [Ident ''duplicates-table'']) [Tag ''tbody''])
                            [duplicate_table_row record_id];
                     d3 = after d2 (jq_id d2 ''duplicates-search-form'')
                            [success_notification record_id]
                 in Some d3)
              else
                Some (after d1 (jq_id d1 ''duplicates-search-form'')
                        [error_notification record_id])))"

section \<open>Sample documents\<close>

text \<open>Small documents on which the theorems below are instantiated.\<close>

definition field_doc :: node where
  "field_doc =
     elem ''#document'' []
       [elem ''html'' []
          [elem ''div'' [(''class'', ''formset'')]
             [Elem \<lparr>tag = ''label'', attrs = [], checked = False, hidden = True, dirty_value = None\<rparr>
                [Text ''Fields were removed''],
              elem ''fieldset'' [(''data-form-type'', ''name'')]
                [Elem \<lparr>tag = ''input'',
                        attrs = [(''type'', ''checkbox''), (''name'', ''form-0-DELETE'')],
                        checked = True, hidden = False, dirty_value = None\<rparr> [],
                 elem ''button'' [] []]]]]"

definition transcription_data :: "transcription list" where
  "transcription_data =
     [\<lparr>pk = 9, order = ''2'', transcription_text = ''a''\<rparr>,
      \<lparr>pk = 7, order = '' 1'', transcription_text = ''b''\<rparr>,
      \<lparr>pk = 5, order = ''1'', transcription_text = ''c''\<rparr>]"

text \<open>
  Three sibling rows, each with a preferred and an authorised check box. The second row
  is the one clicked; the other two hold checked flags from before.
\<close>

definition checkbox :: "string \<Rightarrow> bool \<Rightarrow> node" where
  "checkbox nm b =
     Elem \<lparr>tag = ''input'', attrs = [(''type'', ''checkbox''), (''name'', nm)],
           checked = b, hidden = False, dirty_value = None\<rparr> []"

definition flag_doc :: node where
  "flag_doc =
     elem ''#document'' []
       [elem ''html'' []
          [elem ''div'' [(''class'', ''fieldsets'')]
             [elem ''fieldset'' [(''class'', ''border-left'')]
                [checkbox ''identity-0-preferred'' True, checkbox ''name-0-authorised'' True],
              elem ''fieldset'' []
                [checkbox ''identity-1-preferred'' True, checkbox ''name-1-authorised'' True],
              elem ''fieldset'' []
                [checkbox ''identity-2-preferred'' True, checkbox ''name-2-authorised'' False]]]]"

text \<open>
  A single row whose two flags have just been clicked off: the browser has cleared
  them, and the handler is about to run.
\<close>

definition unchecked_flag_doc :: node where
  "unchecked_flag_doc =
     elem ''#document'' []
       [elem ''html'' []
          [elem ''fieldset'' [(''class'', ''border-left'')]
             [checkbox ''identity-0-preferred'' False, checkbox ''name-0-authorised'' False]]]"

text \<open>
  A duplicates table of two rows. The first row was the primary record and carries a
  merge choice in its duplicate cell; the radio button of the second row has just been
  clicked, so the browser has moved the selection to it.
\<close>

definition radio :: "string \<Rightarrow> string \<Rightarrow> bool \<Rightarrow> node" where
  "radio nm v b =
     Elem \<lparr>tag = ''input'', attrs = [(''type'', ''radio''), (''value'', v), (''name'', nm)],
           checked = b, hidden = False, dirty_value = None\<rparr> []"

definition duplicate_row :: "string \<Rightarrow> string \<Rightarrow> string \<Rightarrow> bool \<Rightarrow> bool \<Rightarrow> node" where
  "duplicate_row rid cell_classes label_classes primary merge =
     elem ''tr'' []
       [elem ''td'' [(''class'', cell_classes)]
          [elem ''label'' [(''class'', label_classes)]
             [radio ''primary_record'' rid primary, Text ''Primary record'']],
        elem ''td'' [(''class'', ''duplicate-cell'')]
          [radio (''duplicate_'' @ rid) ''true'' merge,
           elem ''label'' [(''class'', ''disabled'')] [Text ''Merge with primary''],
           radio (''duplicate_'' @ rid) ''false'' False,
           elem ''label'' [(''class'', ''disabled'')] [Text ''Not related to primary'']]]"

text \<open>
  A row whose preferred flag is a pair of radio buttons of one name; the first has just
  been clicked, so the browser has checked it.
\<close>

definition radio_flag_doc :: node where
  "radio_flag_doc =
     elem ''#document'' []
       [elem ''html'' []
          [elem ''fieldset'' []
             [radio ''identity-0-preferred'' ''yes'' True,
              radio ''identity-0-preferred'' ''no'' False]]]"

definition dup_doc :: node where
  "dup_doc =
     elem ''#document'' []
       [elem ''html'' []
          [elem ''table'' [(''id'', ''duplicates-table'')]
             [elem ''tbody'' []
                [duplicate_row ''1'' ''button-cell primary-cell border-left'' ''selected'' False True,
                 duplicate_row ''2'' ''button-cell primary-cell'' [] True True]]]]"

text \<open>
  A formset with two forms and room for \<open>maxForms\<close>, the blueprint of its form type,
  and the add control inside a label.
\<close>

definition name_blueprint :: node where
  "name_blueprint =
     elem ''fieldset'' [(''data-form-type'', ''name'')]
       [elem ''label'' [(''for'', ''id_names-__prefix__-display'')] [Text ''Name''],
        elem ''input'' [(''type'', ''text''), (''name'', ''names-__prefix__-display''),
                        (''id'', ''id_names-__prefix__-display'')] [],
        elem ''textarea'' [(''class'', ''richtext''), (''name'', ''names-__prefix__-note''),
                           (''id'', ''id_names-__prefix__-note'')] []]"

definition formset_doc :: "string \<Rightarrow> node \<Rightarrow> node" where
  "formset_doc maxForms blueprint =
     elem ''#document'' []
       [elem ''html'' []
          [elem ''div'' [(''class'', ''formset'')]
             [elem ''div'' [(''class'', ''management_form'')]
                [elem ''input'' [(''type'', ''hidden''), (''name'', ''names-TOTAL_FORMS''),
                                 (''value'', ''2''), (''id'', ''id_names-TOTAL_FORMS'')] [],
                 elem ''input'' [(''type'', ''hidden''), (''name'', ''names-MAX_NUM_FORMS''),
                                 (''value'', maxForms), (''id'', ''id_names-MAX_NUM_FORMS'')] []],
              elem ''div'' [(''class'', ''fieldsets'')]
                [elem ''fieldset'' [(''data-form-type'', ''name'')] [],
                 elem ''fieldset'' [(''data-form-type'', ''name'')] []],
              elem ''label'' [] [elem ''button'' [] [Text ''Add name'']]],
           elem ''div'' [(''id'', ''empty_forms'')] [blueprint]]]"

text \<open>A blueprint whose row wrapper carries the placeholder in its id and has no name.\<close>

definition wrapped_blueprint :: node where
  "wrapped_blueprint =
     elem ''fieldset'' [(''data-form-type'', ''name'')]
       [elem ''div'' [(''id'', ''row-names-__prefix__'')]
          [elem ''input'' [(''type'', ''text''), (''name'', ''names-__prefix__-display''),
                          (''id'', ''id_names-__prefix__-display'')] []]]"

text \<open>
  The duplicates page: the search form, a notification left by an earlier call, and the
  table with the rows given.
\<close>

definition duplicates_page :: "node list \<Rightarrow> node" where
  "duplicates_page rows =
     elem ''#document'' []
       [elem ''html'' []
          [elem ''form'' [(''id'', ''duplicates-search-form'')] [],
           notification ''success-notification'' ''The record 7 has been added to the table.'',
           elem ''table'' [(''id'', ''duplicates-table'')] [elem ''tbody'' [] rows]]]"

section \<open>Facts about the document tree\<close>

lemma kids_update_at_length [simp]: "length (kids (update_at p f n)) = length (kids n)"
  by (cases n; cases p) auto

lemma node_at_update_at:
  "node_at (update_at p f d) q
     = (if prefix q p then map_option (update_at (drop (length q) p) f) (node_at d q)
        else node_at d q)"
proof (induction q arbitrary: p d)
  case Nil
  then show ?case by simp
next
  case (Cons j q)
  show ?case
  proof (cases d)
    case (Text s)
    then show ?thesis by simp
  next
    case (Elem pr ks)
    show ?thesis
    proof (cases p)
      case Nil
      then show ?thesis using Elem by simp
    next
      case (Cons i p')
      then show ?thesis using Elem Cons.IH[of p' "ks ! i"]
        by (cases "i = j") auto
    qed
  qed
qed

lemma props_root_update_at:
  "(case update_at r f n of Elem pr ks \<Rightarrow> Some pr | Text s \<Rightarrow> None)
     = (case n of Elem pr ks \<Rightarrow> Some (if r = [] then f pr else pr) | Text s \<Rightarrow> None)"
  by (cases n; cases r) auto

lemma props_at_update_at:
  "props_at (update_at p f d) q = (if q = p then map_option f (props_at d q) else props_at d q)"
proof (cases "node_at d q")
  case None
  then show ?thesis by (auto simp: props_at_def node_at_update_at)
next
  case (Some n)
  show ?thesis
  proof (cases "prefix q p")
    case False
    then have "q \<noteq> p" by auto
    then show ?thesis using False Some by (simp add: props_at_def node_at_update_at)
  next
    case True
    then have eq: "drop (length q) p = [] \<longleftrightarrow> q = p"
      by (auto simp: prefix_def)
    show ?thesis using True Some props_root_update_at[of "drop (length q) p" f n] eq
      by (cases n) (auto simp: props_at_def node_at_update_at)
  qed
qed

lemma kid_paths_list_update:
  "i < length ks \<Longrightarrow> elem_paths k' = elem_paths (ks ! i) \<Longrightarrow> kid_paths j (ks[i := k']) = kid_paths j ks"
proof (induction ks arbitrary: i j)
  case Nil
  then show ?case by simp
next
  case (Cons k ks)
  then show ?case by (cases i) auto
qed

lemma elem_paths_update_at [simp]: "elem_paths (update_at p f n) = elem_paths n"
proof (induction p arbitrary: n)
  case Nil
  then show ?case by (cases n) auto
next
  case (Cons i p)
  then show ?case by (cases n) (auto simp: kid_paths_list_update)
qed

lemma elements_update_at [simp]: "elements (update_at p f d) = elements d"
proof (cases d)
  case (Elem pr ks)
  have "elem_paths (update_at p f d) = elem_paths d" by simp
  then show ?thesis using Elem by (cases p) (auto simp: elements_def kid_paths_list_update)
next
  case (Text s)
  then show ?thesis by (simp add: elements_def)
qed

lemma kid_paths_mem:
  "p \<in> set (kid_paths i ks) \<longleftrightarrow>
     (\<exists>j q. p = (i + j) # q \<and> j < length ks \<and> q \<in> set (elem_paths (ks ! j)))"
proof (induction ks arbitrary: i)
  case Nil
  then show ?case by simp
next
  case (Cons k ks)
  show ?case
  proof
    assume "p \<in> set (kid_paths i (k # ks))"
    then consider (hd) q where "p = i # q" "q \<in> set (elem_paths k)"
      | (tl) "p \<in> set (kid_paths (Suc i) ks)" by auto
    then show "\<exists>j q. p = (i + j) # q \<and> j < length (k # ks) \<and> q \<in> set (elem_paths ((k # ks) ! j))"
    proof cases
      case hd
      then show ?thesis by (intro exI[of _ 0] exI[of _ q]) simp
    next
      case tl
      then obtain j q where "p = (Suc i + j) # q" "j < length ks" "q \<in> set (elem_paths (ks ! j))"
        using Cons.IH[of "Suc i"] by blast
      then show ?thesis by (intro exI[of _ "Suc j"] exI[of _ q]) simp
    qed
  next
    assume "\<exists>j q. p = (i + j) # q \<and> j < length (k # ks) \<and> q \<in> set (elem_paths ((k # ks) ! j))"
    then obtain j q where h: "p = (i + j) # q" "j < length (k # ks)" "q \<in> set (elem_paths ((k # ks) ! j))"
      by blast
    show "p \<in> set (kid_paths i (k # ks))"
    proof (cases j)
      case 0
      then show ?thesis using h by simp
    next
      case (Suc j')
      then have "p \<in> set (kid_paths (Suc i) ks)"
        using h Cons.IH[of "Suc i"] by auto
      then show ?thesis by simp
    qed
  qed
qed

lemma elem_paths_mem: "p \<in> set (elem_paths n) \<longleftrightarrow> props_at n p \<noteq> None"
proof (induction p arbitrary: n)
  case Nil
  then show ?case by (cases n) (auto simp: props_at_def)
next
  case (Cons i p)
  show ?case
  proof (cases n)
    case (Text s)
    then show ?thesis by (simp add: props_at_def)
  next
    case (Elem pr ks)
    have "i # p \<in> set (elem_paths n) \<longleftrightarrow> i # p \<in> set (kid_paths 0 ks)"
      using Elem by auto
    also have "\<dots> \<longleftrightarrow> i < length ks \<and> p \<in> set (elem_paths (ks ! i))"
      by (auto simp: kid_paths_mem)
    also have "\<dots> \<longleftrightarrow> i < length ks \<and> props_at (ks ! i) p \<noteq> None"
      using Cons.IH by simp
    also have "\<dots> \<longleftrightarrow> props_at n (i # p) \<noteq> None"
      using Elem by (auto simp: props_at_def)
    finally show ?thesis .
  qed
qed

lemma elements_mem: "p \<in> set (elements d) \<longleftrightarrow> p \<noteq> [] \<and> props_at d p \<noteq> None"
proof (cases p)
  case Nil
  then show ?thesis by (simp add: elements_def kid_paths_mem)
next
  case (Cons i q)
  have "p \<in> set (elements d) \<longleftrightarrow> i < length (kids d) \<and> props_at (kids d ! i) q \<noteq> None"
    using Cons by (auto simp: elements_def kid_paths_mem elem_paths_mem)
  then show ?thesis using Cons by (auto simp: props_at_def)
qed

lemma distinct_elem_paths: "distinct (elem_paths n)"
  and distinct_kid_paths: "distinct (kid_paths i ks)"
proof (induction n and i ks rule: elem_paths_kid_paths.induct)
  case (1 pr ks)
  then show ?case by (auto simp: kid_paths_mem)
next
  case (2 s)
  then show ?case by simp
next
  case (3 i)
  then show ?case by simp
next
  case (4 i k ks)
  then show ?case by (auto simp: distinct_map kid_paths_mem inj_on_def)
qed

lemma distinct_elements [simp]: "distinct (elements d)"
  by (simp add: elements_def distinct_kid_paths)

lemma props_at_each:
  "distinct S \<Longrightarrow>
   props_at (each d S f) q = (if q \<in> set S then map_option f (props_at d q) else props_at d q)"
  by (induction S) (auto simp: each_def props_at_update_at)

lemma elements_each [simp]: "elements (each d S f) = elements d"
  by (induction S) (auto simp: each_def)

lemma words_from_clean:
  "list_all (\<lambda>c. \<not> is_html_space c) cur \<Longrightarrow> list_all clean_word (words_from cur s)"
  by (induction s arbitrary: cur) (auto simp: clean_word_def)

lemma split_words_clean: "list_all clean_word (split_words s)"
  by (simp add: split_words_def words_from_clean)

lemma words_from_append_word:
  "list_all (\<lambda>c. \<not> is_html_space c) w \<Longrightarrow> words_from cur (w @ s) = words_from (cur @ w) s"
  by (induction w arbitrary: cur) auto

lemma split_join_words: "list_all clean_word ws \<Longrightarrow> split_words (join_words ws) = ws"
proof (induction ws rule: join_words.induct)
  case 1
  then show ?case by (simp add: split_words_def)
next
  case (2 w)
  then have "words_from [] (w @ []) = words_from ([] @ w) []"
    by (intro words_from_append_word) (simp add: clean_word_def)
  then show ?case using 2 by (simp add: split_words_def clean_word_def)
next
  case (3 w v ws)
  then have "words_from [] (w @ CHR '' '' # join_words (v # ws))
      = words_from ([] @ w) (CHR '' '' # join_words (v # ws))"
    by (intro words_from_append_word) (simp add: clean_word_def)
  then show ?case using 3 by (simp add: split_words_def clean_word_def is_html_space_def)
qed

lemma getClass_set_class [simp]: "getClass (set_attr ''class'' s pr) = s"
  by (simp add: getClass_def attr_def set_attr_def update_conv')

lemma class_list_put_classes:
  "list_all clean_word ws \<Longrightarrow> class_list (put_classes ws pr) = ws"
  by (auto simp: class_list_def put_classes_def split_join_words)

lemma class_list_clean: "list_all clean_word (class_list pr)"
  by (simp add: class_list_def split_words_clean)

lemma class_list_addClass:
  "clean_word c \<Longrightarrow>
   class_list (addClass c pr) = (if c \<in> set (class_list pr) then class_list pr else class_list pr @ [c])"
  by (simp add: addClass_def class_list_put_classes class_list_clean)

lemma class_list_removeClass:
  "class_list (removeClass c pr) = filter (\<lambda>w. w \<noteq> c) (class_list pr)"
proof -
  have "list_all clean_word (filter (\<lambda>w. w \<noteq> c) (class_list pr))"
    using class_list_clean[of pr] by (auto simp: list_all_iff)
  then show ?thesis by (simp add: removeClass_def class_list_put_classes)
qed

lemma hasClass_addClass:
  "clean_word c \<Longrightarrow> hasClass c' (addClass c pr) \<longleftrightarrow> c' = c \<or> hasClass c' pr"
  by (auto simp: hasClass_def class_list_addClass)

lemma hasClass_removeClass:
  "hasClass c' (removeClass c pr) \<longleftrightarrow> c' \<noteq> c \<and> hasClass c' pr"
  by (auto simp: hasClass_def class_list_removeClass)

lemma hasClass_toggleClass:
  "clean_word c \<Longrightarrow>
   hasClass c' (toggleClass c pr) \<longleftrightarrow> (if c' = c then \<not> hasClass c pr else hasClass c' pr)"
  by (auto simp: toggleClass_def hasClass_addClass hasClass_removeClass)

text \<open>What a change of the class attribute leaves alone.\<close>

lemma put_classes_frame [simp]:
  "tag (put_classes ws pr) = tag pr"
  "checked (put_classes ws pr) = checked pr"
  "hidden (put_classes ws pr) = hidden pr"
  "dirty_value (put_classes ws pr) = dirty_value pr"
  "a \<noteq> ''class'' \<Longrightarrow> attr (put_classes ws pr) a = attr pr a"
  by (auto simp: put_classes_def set_attr_def attr_def update_conv')

lemma addClass_frame [simp]:
  "tag (addClass c pr) = tag pr"
  "checked (addClass c pr) = checked pr"
  "hidden (addClass c pr) = hidden pr"
  "dirty_value (addClass c pr) = dirty_value pr"
  "a \<noteq> ''class'' \<Longrightarrow> attr (addClass c pr) a = attr pr a"
  by (simp_all add: addClass_def)

lemma removeClass_frame [simp]:
  "tag (removeClass c pr) = tag pr"
  "checked (removeClass c pr) = checked pr"
  "hidden (removeClass c pr) = hidden pr"
  "dirty_value (removeClass c pr) = dirty_value pr"
  "a \<noteq> ''class'' \<Longrightarrow> attr (removeClass c pr) a = attr pr a"
  by (simp_all add: removeClass_def)

lemma toggleClass_frame [simp]:
  "tag (toggleClass c pr) = tag pr"
  "checked (toggleClass c pr) = checked pr"
  "hidden (toggleClass c pr) = hidden pr"
  "dirty_value (toggleClass c pr) = dirty_value pr"
  "a \<noteq> ''class'' \<Longrightarrow> attr (toggleClass c pr) a = attr pr a"
  by (simp_all add: toggleClass_def)

lemma show_elem_frame [simp]:
  "tag (show_elem pr) = tag pr"
  "checked (show_elem pr) = checked pr"
  "hidden (show_elem pr) = False"
  "dirty_value (show_elem pr) = dirty_value pr"
  "attr (show_elem pr) a = attr pr a"
  "class_list (show_elem pr) = class_list pr"
  by (simp_all add: show_elem_def attr_def class_list_def getClass_def)

lemma hide_elem_frame [simp]:
  "tag (hide_elem pr) = tag pr"
  "checked (hide_elem pr) = checked pr"
  "hidden (hide_elem pr) = True"
  "dirty_value (hide_elem pr) = dirty_value pr"
  "attr (hide_elem pr) a = attr pr a"
  "class_list (hide_elem pr) = class_list pr"
  by (simp_all add: hide_elem_def attr_def class_list_def getClass_def)

lemma set_checked_frame [simp]:
  "tag (set_checked b pr) = tag pr"
  "checked (set_checked b pr) = b"
  "hidden (set_checked b pr) = hidden pr"
  "dirty_value (set_checked b pr) = dirty_value pr"
  "attr (set_checked b pr) a = attr pr a"
  "class_list (set_checked b pr) = class_list pr"
  by (simp_all add: set_checked_def attr_def class_list_def getClass_def)

lemma type_keyword_frame [simp]:
  "type_keyword (put_classes ws pr) = type_keyword pr"
  "type_keyword (addClass c pr) = type_keyword pr"
  "type_keyword (removeClass c pr) = type_keyword pr"
  "type_keyword (toggleClass c pr) = type_keyword pr"
  "type_keyword (show_elem pr) = type_keyword pr"
  "type_keyword (hide_elem pr) = type_keyword pr"
  "type_keyword (set_checked b pr) = type_keyword pr"
  by (simp_all add: type_keyword_def)

lemma props_at_update_at_inv:
  "(\<And>pr. g (f pr) = g pr) \<Longrightarrow>
   map_option g (props_at (update_at p f d) q) = map_option g (props_at d q)"
  by (simp add: props_at_update_at option.map_comp comp_def)

lemma props_at_each_inv:
  "(\<And>pr. g (f pr) = g pr) \<Longrightarrow>
   map_option g (props_at (each d S f) q) = map_option g (props_at d q)"
  by (induction S) (simp_all add: each_def props_at_update_at_inv)

lemma props_at_each_None [simp]: "props_at (each d S f) q = None \<longleftrightarrow> props_at d q = None"
  using props_at_each_inv[of "\<lambda>_. ()" f d S q] by (metis option.map_disc_iff)

lemma sel_at_map: "sel_at d sel q \<longleftrightarrow> map_option (matches sel) (props_at d q) = Some True"
  by (auto simp: sel_at_def split: option.splits)

lemma sel_at_each:
  "(\<And>pr. matches sel (f pr) = matches sel pr) \<Longrightarrow> sel_at (each d S f) sel q = sel_at d sel q"
  by (simp add: sel_at_map props_at_each_inv)

text \<open>
  A traversal reads the document through its element list and the selector test only.
\<close>

lemma traversal_cong:
  assumes "elements d' = elements d" and "\<And>q. sel_at d' sel q = sel_at d sel q"
  shows "jq d' sel = jq d sel"
    and "children d' S sel = children d S sel"
    and "find_in d' S sel = find_in d S sel"
    and "parent d' S sel = parent d S sel"
    and "parents d' S sel = parents d S sel"
    and "closest1 d' sel p = closest1 d sel p"
    and "closest d' S sel = closest d S sel"
    and "next_sib d' S sel = next_sib d S sel"
    and "is_sel d' S sel = is_sel d S sel"
proof -
  have s: "sel_at d' sel = sel_at d sel" using assms(2) by auto
  show "jq d' sel = jq d sel" by (simp add: jq_def assms(1) s)
  show "children d' S sel = children d S sel" by (simp add: children_def assms(1) s)
  show "find_in d' S sel = find_in d S sel" by (simp add: find_in_def assms(1) s)
  show "parent d' S sel = parent d S sel" by (simp add: parent_def assms(1) s)
  show "parents d' S sel = parents d S sel" by (simp add: parents_def assms(1) s)
  show c1: "closest1 d' sel p = closest1 d sel p" for p by (simp add: closest1_def s)
  show "closest d' S sel = closest d S sel" by (simp add: closest_def assms(1) c1)
  show "next_sib d' S sel = next_sib d S sel" by (simp add: next_sib_def next1_def assms(1) s)
  show "is_sel d' S sel = is_sel d S sel" by (simp add: is_sel_def s)
qed

lemma siblings_cong: "elements d' = elements d \<Longrightarrow> siblings d' S = siblings d S"
  by (simp add: siblings_def)

lemma node_at_text_update_at:
  "node_at (update_at p f d) q = Some (Text s) \<longleftrightarrow> node_at d q = Some (Text s)"
proof -
  have "update_at r f n = Text s \<longleftrightarrow> n = Text s" for r n
    by (cases n; cases r) auto
  then show ?thesis by (auto simp: node_at_update_at)
qed

lemma node_at_text_each:
  "node_at (each d S f) q = Some (Text s) \<longleftrightarrow> node_at d q = Some (Text s)"
  by (induction S) (simp_all add: each_def node_at_text_update_at)

lemma distinct_queries [simp]:
  "distinct (jq d sel)" "distinct (children d S sel)" "distinct (find_in d S sel)"
  "distinct (parent d S sel)" "distinct (parents d S sel)" "distinct (closest d S sel)"
  "distinct (siblings d S)" "distinct (next_sib d S sel)"
  by (simp_all add: jq_def children_def find_in_def parent_def parents_def closest_def
      siblings_def next_sib_def)

lemma distinct_first [simp]: "distinct (first T)" "distinct (last_of T)" "distinct (jq_id d i)"
  by (cases T; simp add: first_def last_of_def; fail)
     (simp_all add: last_of_def jq_id_def jq_def distinct_take)

lemma clean_word_none [simp]: "clean_word ''none''"
  by (simp add: clean_word_def is_html_space_def)

lemma deleteField_sets:
  "deleteField d el sel =
     each (each d (closest d [el] sel) (addClass ''none''))
       (children d (first (parents d [el] [Cls ''formset''])) [Tag ''label'']) show_elem"
proof -
  let ?d1 = "each d (closest d [el] sel) (addClass ''none'')"
  have e: "elements ?d1 = elements d" by simp
  have f: "sel_at ?d1 [Cls ''formset''] q = sel_at d [Cls ''formset''] q" for q
    by (rule sel_at_each) (simp add: matches_def hasClass_addClass)
  have l: "sel_at ?d1 [Tag ''label''] q = sel_at d [Tag ''label''] q" for q
    by (rule sel_at_each) (simp add: matches_def)
  have "parents ?d1 [el] [Cls ''formset''] = parents d [el] [Cls ''formset'']"
    using traversal_cong(5)[OF e f] by simp
  moreover have "children ?d1 T [Tag ''label''] = children d T [Tag ''label'']" for T
    using traversal_cong(2)[OF e l] by simp
  ultimately show ?thesis by (simp add: deleteField_def Let_def)
qed

subsection \<open>Setting and clearing \<open>checked\<close>\<close>

lemma distinct_radio_group [simp]: "distinct (radio_group d p)"
  by (simp add: radio_group_def split: option.splits)

lemma radio_group_mem:
  "q \<in> set (radio_group d p) \<Longrightarrow> q \<noteq> p \<and> sel_at d [PseudoRadio] q"
  by (auto simp: radio_group_def sel_at_def matches_def split: option.splits if_splits)

lemma props_at_check_at:
  "props_at (check_at p d) q =
     (if q = p then map_option (set_checked True) (props_at d q)
      else if q \<in> set (radio_group d p) then map_option (set_checked False) (props_at d q)
      else props_at d q)"
  using radio_group_mem[of p d p]
  by (auto simp: check_at_def props_at_each props_at_update_at)

lemma elements_check_at [simp]: "elements (check_at p d) = elements d"
  by (simp add: check_at_def)

lemma props_at_check_at_inv:
  "(\<And>b pr. g (set_checked b pr) = g pr) \<Longrightarrow>
   map_option g (props_at (check_at p d) q) = map_option g (props_at d q)"
  by (simp add: check_at_def props_at_each_inv props_at_update_at_inv)

lemma elements_prop_checked [simp]: "elements (prop_checked d S b) = elements d"
proof -
  have "elements (foldl (\<lambda>e p. check_at p e) d S) = elements d"
    by (induction S arbitrary: d) simp_all
  then show ?thesis by (simp add: prop_checked_def)
qed

lemma props_at_prop_checked_inv:
  assumes "\<And>b pr. g (set_checked b pr) = g pr"
  shows "map_option g (props_at (prop_checked d S b) q) = map_option g (props_at d q)"
proof -
  have "map_option g (props_at (foldl (\<lambda>e p. check_at p e) d S) q) = map_option g (props_at d q)"
    by (induction S arbitrary: d) (simp_all add: props_at_check_at_inv assms)
  then show ?thesis by (simp add: prop_checked_def props_at_each_inv assms)
qed

lemma sel_at_prop_checked:
  "(\<And>b pr. matches sel (set_checked b pr) = matches sel pr) \<Longrightarrow>
   sel_at (prop_checked d S b) sel q = sel_at d sel q"
  by (simp add: sel_at_map props_at_prop_checked_inv)

lemma props_at_uncheck:
  "distinct S \<Longrightarrow>
   props_at (prop_checked d S False) q
     = (if q \<in> set S then map_option (set_checked False) (props_at d q) else props_at d q)"
  by (simp add: prop_checked_def props_at_each)

text \<open>Checking a list of controls never checks a control outside the list.\<close>

lemma checked_after_check_all:
  "q \<notin> set S \<Longrightarrow>
   map_option checked (props_at (prop_checked d S True) q) = Some True \<Longrightarrow>
   map_option checked (props_at d q) = Some True"
proof -
  have "q \<notin> set S \<Longrightarrow>
     map_option checked (props_at (foldl (\<lambda>e p. check_at p e) d S) q) = Some True \<Longrightarrow>
     map_option checked (props_at d q) = Some True"
  proof (induction S arbitrary: d)
    case Nil
    then show ?case by simp
  next
    case (Cons p S)
    then have "map_option checked (props_at (check_at p d) q) = Some True" by simp
    then show ?case using Cons.prems(1)
      by (auto simp: props_at_check_at split: if_splits)
  qed
  then show "q \<notin> set S \<Longrightarrow>
     map_option checked (props_at (prop_checked d S True) q) = Some True \<Longrightarrow>
     map_option checked (props_at d q) = Some True"
    by (simp add: prop_checked_def)
qed

text \<open>A control of the list that is not a radio button ends checked.\<close>

lemma checked_in_check_all:
  assumes "q \<in> set S" and "\<not> sel_at d [PseudoRadio] q" and "props_at d q \<noteq> None"
  shows "map_option checked (props_at (prop_checked d S True) q) = Some True"
proof -
  have radio: "sel_at (check_at p e) [PseudoRadio] q = sel_at e [PseudoRadio] q" for p e
    by (simp add: sel_at_map props_at_check_at_inv matches_def)
  have ex: "props_at (check_at p e) q \<noteq> None \<longleftrightarrow> props_at e q \<noteq> None" for p e
    using props_at_check_at_inv[of "\<lambda>_. ()" p e q] by (metis option.map_disc_iff)
  have keep: "\<not> sel_at e [PseudoRadio] q \<Longrightarrow> map_option checked (props_at e q) = Some True \<Longrightarrow>
      map_option checked (props_at (foldl (\<lambda>e p. check_at p e) e T) q) = Some True" for e T
  proof (induction T arbitrary: e)
    case Nil
    then show ?case by simp
  next
    case (Cons p T)
    have "map_option checked (props_at (check_at p e) q) = Some True"
      using Cons.prems radio_group_mem[of q e p]
      by (auto simp: props_at_check_at)
    then show ?case using Cons.IH[of "check_at p e"] Cons.prems(1) radio by simp
  qed
  have "q \<in> set S \<Longrightarrow> \<not> sel_at e [PseudoRadio] q \<Longrightarrow> props_at e q \<noteq> None \<Longrightarrow>
      map_option checked (props_at (foldl (\<lambda>e p. check_at p e) e S) q) = Some True" for e
  proof (induction S arbitrary: e)
    case Nil
    then show ?case by simp
  next
    case (Cons p S)
    show ?case
    proof (cases "q = p")
      case True
      have "map_option checked (props_at (check_at p e) q) = Some True"
        using True Cons.prems(3) by (auto simp: props_at_check_at)
      then show ?thesis using keep[of "check_at p e" S] Cons.prems(2) radio by simp
    next
      case False
      then show ?thesis using Cons.IH[of "check_at p e"] Cons.prems radio ex by simp
    qed
  qed
  then show ?thesis using assms by (simp add: prop_checked_def)
qed

subsection \<open>Rows and their siblings\<close>

lemma sibling_prefix_eq:
  assumes "s \<noteq> []" "r \<noteq> []" "butlast s = butlast r" "prefix s q" "prefix r q"
  shows "s = r"
proof -
  have "length s = length r"
    using assms(1-3) by (metis append_butlast_last_id length_append_singleton)
  moreover have "prefix s r \<or> prefix r s"
    using assms(4,5) prefix_same_cases by blast
  ultimately show ?thesis by (auto simp: prefix_def)
qed

lemma find_Some_mem: "List.find P xs = Some x \<Longrightarrow> x \<in> set xs \<and> P x"
  by (induction xs) (auto split: if_splits)

lemma closest1_Some:
  "closest1 d sel p = Some r \<Longrightarrow> prefix r p \<and> r \<noteq> [] \<and> sel_at d sel r"
  using find_Some_mem[of "\<lambda>q. q \<noteq> [] \<and> sel_at d sel q" "rev (prefixes p)" r]
  by (auto simp: closest1_def in_set_prefixes)

lemma sel_at_elements: "sel_at d sel q \<Longrightarrow> q \<noteq> [] \<Longrightarrow> q \<in> set (elements d)"
  by (auto simp: sel_at_def elements_mem split: option.splits)

lemma closest_mem: "r \<in> set (closest d [t] sel) \<longleftrightarrow> closest1 d sel t = Some r"
  using closest1_Some[of d sel t r] by (auto simp: closest_def sel_at_elements)

text \<open>
  The core of both flag handlers: clear the checked flags under a set of rows that
  contains the siblings of the clicked row, then check the flags of the clicked row.
  Afterwards no flag under a sibling of the clicked row is checked.
\<close>

lemma exclusive_core:
  fixes nm :: string
  defines "selP \<equiv> [Tag ''input'', AttrContains ''name'' nm]"
  defines "selC \<equiv> [Tag ''input'', AttrContains ''name'' nm, PseudoChecked]"
  assumes sub: "set (siblings d (closest d [t] [Tag ''fieldset''])) \<subseteq> set Sib"
    and s: "s \<in> set (siblings d (closest d [t] [Tag ''fieldset'']))"
    and q: "strict_prefix s q"
  shows "\<not> sel_at (prop_checked (prop_checked d (find_in d Sib selC) False)
                     (find_in (prop_checked d (find_in d Sib selC) False)
                        (closest (prop_checked d (find_in d Sib selC) False) [t] [Tag ''fieldset''])
                        selP) True) selC q"
proof
  let ?A = "find_in d Sib selC"
  let ?d1 = "prop_checked d ?A False"
  let ?B = "find_in ?d1 (closest ?d1 [t] [Tag ''fieldset'']) selP"
  let ?d2 = "prop_checked ?d1 ?B True"
  assume m: "sel_at ?d2 selC q"
  have qne: "q \<noteq> []" using q by auto
  have fs: "sel_at ?d1 [Tag ''fieldset''] x = sel_at d [Tag ''fieldset''] x" for x
    by (rule sel_at_prop_checked) (simp add: matches_def)
  have cl: "closest ?d1 [t] [Tag ''fieldset''] = closest d [t] [Tag ''fieldset'']"
    using traversal_cong(7)[of ?d1 d "[Tag ''fieldset'']"] fs by simp
  from s obtain r where r: "r \<in> set (closest d [t] [Tag ''fieldset''])"
      "r \<noteq> []" "s \<noteq> []" "r \<noteq> s" "butlast r = butlast s"
    by (auto simp: siblings_def)
  have notB: "q \<notin> set ?B"
  proof
    assume "q \<in> set ?B"
    then have "q \<in> set (find_in ?d1 (closest d [t] [Tag ''fieldset'']) selP)"
      unfolding cl .
    then obtain r' where r': "r' \<in> set (closest d [t] [Tag ''fieldset''])" "strict_prefix r' q"
      unfolding find_in_def[of ?d1] by auto
    have "r' = r" using r(1) r'(1) by (simp add: closest_mem)
    then have "prefix s q" "prefix r q"
      using q r'(2) by (auto simp: strict_prefix_def)
    then have "s = r"
      using sibling_prefix_eq[OF r(3) r(2) r(5)[symmetric]] by blast
    then show False using r(4) by simp
  qed
  have tg: "map_option g (props_at ?d2 q) = map_option g (props_at ?d1 q)"
    if "\<And>b pr. g (set_checked b pr) = g pr" for g :: "props \<Rightarrow> bool"
    using that by (rule props_at_prop_checked_inv)
  have ch2: "map_option checked (props_at ?d2 q) = Some True"
    using m by (auto simp: sel_at_def selC_def matches_def split: option.splits)
  have ch1: "map_option checked (props_at ?d1 q) = Some True"
    using checked_after_check_all[OF notB ch2] .
  define g where "g = (\<lambda>pr. matches selC (set_checked True pr))"
  have g_inv: "g (set_checked b pr) = g pr" for b pr
    by (simp add: g_def set_checked_def)
  have g_iff: "matches selC pr \<longleftrightarrow> g pr \<and> checked pr" for pr
    by (auto simp: g_def selC_def matches_def)
  have "map_option g (props_at ?d2 q) = Some True"
    using m by (auto simp: sel_at_def g_iff split: option.splits)
  then have gd: "map_option g (props_at d q) = Some True"
    by (simp add: props_at_prop_checked_inv g_inv)
  have notA: "q \<notin> set ?A"
    using ch1 by (auto simp: props_at_uncheck option.map_comp comp_def split: if_splits)
  have "map_option checked (props_at d q) = Some True"
    using ch1 notA by (simp add: props_at_uncheck)
  then have "sel_at d selC q"
    using gd by (auto simp: sel_at_def g_iff split: option.splits)
  moreover have "s \<in> set Sib" using sub s by auto
  ultimately have "q \<in> set ?A"
    using q qne by (auto simp: find_in_def sel_at_elements)
  then show False using notA by simp
qed

subsection \<open>Traversals after a write that the selector does not see\<close>

lemma each_queries:
  assumes "\<And>pr. matches sel (f pr) = matches sel pr"
  shows "jq (each d S f) sel = jq d sel"
    and "children (each d S f) T sel = children d T sel"
    and "find_in (each d S f) T sel = find_in d T sel"
    and "parent (each d S f) T sel = parent d T sel"
    and "parents (each d S f) T sel = parents d T sel"
    and "closest (each d S f) T sel = closest d T sel"
    and "next_sib (each d S f) T sel = next_sib d T sel"
    and "is_sel (each d S f) T sel = is_sel d T sel"
proof -
  have e: "elements (each d S f) = elements d" by simp
  have s: "sel_at (each d S f) sel q = sel_at d sel q" for q
    by (rule sel_at_each) (rule assms)
  show "jq (each d S f) sel = jq d sel" by (rule traversal_cong(1)[OF e s])
  show "children (each d S f) T sel = children d T sel" by (rule traversal_cong(2)[OF e s])
  show "find_in (each d S f) T sel = find_in d T sel" by (rule traversal_cong(3)[OF e s])
  show "parent (each d S f) T sel = parent d T sel" by (rule traversal_cong(4)[OF e s])
  show "parents (each d S f) T sel = parents d T sel" by (rule traversal_cong(5)[OF e s])
  show "closest (each d S f) T sel = closest d T sel" by (rule traversal_cong(7)[OF e s])
  show "next_sib (each d S f) T sel = next_sib d T sel" by (rule traversal_cong(8)[OF e s])
  show "is_sel (each d S f) T sel = is_sel d T sel" by (rule traversal_cong(9)[OF e s])
qed

lemma prop_checked_queries:
  assumes "\<And>b pr. matches sel (set_checked b pr) = matches sel pr"
  shows "jq (prop_checked d S c) sel = jq d sel"
    and "children (prop_checked d S c) T sel = children d T sel"
    and "find_in (prop_checked d S c) T sel = find_in d T sel"
    and "parent (prop_checked d S c) T sel = parent d T sel"
    and "parents (prop_checked d S c) T sel = parents d T sel"
    and "closest (prop_checked d S c) T sel = closest d T sel"
    and "next_sib (prop_checked d S c) T sel = next_sib d T sel"
    and "is_sel (prop_checked d S c) T sel = is_sel d T sel"
proof -
  have e: "elements (prop_checked d S c) = elements d" by simp
  have s: "sel_at (prop_checked d S c) sel q = sel_at d sel q" for q
    by (rule sel_at_prop_checked) (rule assms)
  show "jq (prop_checked d S c) sel = jq d sel" by (rule traversal_cong(1)[OF e s])
  show "children (prop_checked d S c) T sel = children d T sel" by (rule traversal_cong(2)[OF e s])
  show "find_in (prop_checked d S c) T sel = find_in d T sel" by (rule traversal_cong(3)[OF e s])
  show "parent (prop_checked d S c) T sel = parent d T sel" by (rule traversal_cong(4)[OF e s])
  show "parents (prop_checked d S c) T sel = parents d T sel" by (rule traversal_cong(5)[OF e s])
  show "closest (prop_checked d S c) T sel = closest d T sel" by (rule traversal_cong(7)[OF e s])
  show "next_sib (prop_checked d S c) T sel = next_sib d T sel" by (rule traversal_cong(8)[OF e s])
  show "is_sel (prop_checked d S c) T sel = is_sel d T sel" by (rule traversal_cong(9)[OF e s])
qed

lemma clean_word_classes [simp]:
  "clean_word ''selected''" "clean_word ''disabled''" "clean_word ''inactive''"
  "clean_word ''danger''" "clean_word ''save''"
  by (simp_all add: clean_word_def is_html_space_def)

lemma matches_simple [simp]:
  "matches [] pr" "matches (s # sel) pr \<longleftrightarrow> match1 pr s \<and> matches sel pr"
  by (simp_all add: matches_def)

lemma hasClass_frame [simp]:
  "hasClass c (show_elem pr) = hasClass c pr"
  "hasClass c (hide_elem pr) = hasClass c pr"
  "hasClass c (set_checked b pr) = hasClass c pr"
  "hasClass c (set_val v pr) = hasClass c pr"
  by (simp_all add: hasClass_def class_list_def getClass_def attr_def set_val_def
      show_elem_def hide_elem_def set_checked_def)

lemma set_val_frame [simp]:
  "tag (set_val v pr) = tag pr"
  "checked (set_val v pr) = checked pr"
  "hidden (set_val v pr) = hidden pr"
  "dirty_value (set_val v pr) = Some v"
  "attr (set_val v pr) a = attr pr a"
  by (simp_all add: set_val_def attr_def)

lemma type_keyword_set_val [simp]: "type_keyword (set_val v pr) = type_keyword pr"
  by (simp add: type_keyword_def)

subsection \<open>The flag handlers\<close>

lemma clean_word_border_left [simp]: "clean_word ''border-left''"
  by (simp add: clean_word_def is_html_space_def)

text \<open>The last two steps of both flag handlers only move the class \<open>border-left\<close>.\<close>

lemma border_tail_inv:
  assumes "\<And>c pr. g (addClass c pr) = g pr" "\<And>c pr. g (removeClass c pr) = g pr"
  shows "map_option g
           (props_at (if b then each (each e Y (removeClass ''border-left'')) X (addClass ''border-left'')
                      else each e Y (removeClass ''border-left'')) q)
         = map_option g (props_at e q)"
  by (simp add: props_at_each_inv assms)

lemma border_tail_elements:
  "elements (if b then each (each e Y (removeClass ''border-left'')) X (addClass ''border-left'')
             else each e Y (removeClass ''border-left'')) = elements e"
  by simp

lemma preferred_click_unfold:
  "preferred_click d t =
     (let d1 = prop_checked d
                 (find_in d (siblings d (parents d [t] [Tag ''fieldset'']))
                    [Tag ''input'', AttrContains ''name'' ''preferred'', PseudoChecked])
                 False;
          d2 = prop_checked d1
                 (find_in d1 (closest d1 [t] [Tag ''fieldset''])
                    [Tag ''input'', AttrContains ''name'' ''preferred''])
                 True;
          Y = siblings d2 (parents d2 [t] [Tag ''fieldset'']);
          d3 = each d2 Y (removeClass ''border-left'')
      in (if is_sel d3 [t] [PseudoChecked]
          then each (each d2 Y (removeClass ''border-left'')) (closest d3 [t] [Tag ''fieldset''])
                 (addClass ''border-left'')
          else each d2 Y (removeClass ''border-left'')))"
  by (simp add: preferred_click_def Let_def)

lemma authorised_click_unfold:
  "authorised_click d t =
     (let d1 = prop_checked d
                 (find_in d (siblings d (closest d [t] [Tag ''fieldset'']))
                    [Tag ''input'', AttrContains ''name'' ''authorised'', PseudoChecked])
                 False;
          d2 = prop_checked d1
                 (find_in d1 (closest d1 [t] [Tag ''fieldset''])
                    [Tag ''input'', AttrContains ''name'' ''authorised''])
                 True;
          Y = siblings d2 (closest d2 [t] [Tag ''fieldset'']);
          d3 = each d2 Y (removeClass ''border-left'')
      in (if is_sel d3 [t] [PseudoChecked]
          then each (each d2 Y (removeClass ''border-left'')) (closest d3 [t] [Tag ''fieldset''])
                 (addClass ''border-left'')
          else each d2 Y (removeClass ''border-left'')))"
  by (simp add: authorised_click_def Let_def)

lemma flag_click_elements [simp]:
  "elements (preferred_click d t) = elements d" "elements (authorised_click d t) = elements d"
  by (simp_all add: preferred_click_unfold authorised_click_unfold Let_def)

lemma flag_click_inv:
  assumes "\<And>c pr. g (addClass c pr) = g pr" "\<And>c pr. g (removeClass c pr) = g pr"
    "\<And>b pr. g (set_checked b pr) = g pr"
  shows "map_option g (props_at (preferred_click d t) q) = map_option g (props_at d q)"
    and "map_option g (props_at (authorised_click d t) q) = map_option g (props_at d q)"
  by (simp_all add: preferred_click_unfold authorised_click_unfold Let_def
      props_at_each_inv props_at_prop_checked_inv assms)

lemma flag_click_sel_at:
  assumes "\<And>c pr. matches sel (addClass c pr) = matches sel pr"
    "\<And>c pr. matches sel (removeClass c pr) = matches sel pr"
    "\<And>b pr. matches sel (set_checked b pr) = matches sel pr"
  shows "sel_at (preferred_click d t) sel q = sel_at d sel q"
    and "sel_at (authorised_click d t) sel q = sel_at d sel q"
  by (simp_all add: sel_at_map flag_click_inv assms)

lemma closest_in_parents:
  assumes "\<not> sel_at d sel t"
  shows "set (closest d [t] sel) \<subseteq> set (parents d [t] sel)"
proof
  fix r assume "r \<in> set (closest d [t] sel)"
  then have c: "closest1 d sel t = Some r" by (simp add: closest_mem)
  then have r: "prefix r t" "r \<noteq> []" "sel_at d sel r" using closest1_Some by blast+
  then have "r \<noteq> t" using assms by auto
  then have "strict_prefix r t" using r(1) by (simp add: strict_prefix_def)
  then show "r \<in> set (parents d [t] sel)"
    using r by (auto simp: parents_def sel_at_elements)
qed

lemma siblings_mono: "set S \<subseteq> set T \<Longrightarrow> set (siblings d S) \<subseteq> set (siblings d T)"
  by (auto simp: siblings_def)

lemma props_at_each_notin: "q \<notin> set S \<Longrightarrow> props_at (each d S f) q = props_at d q"
  by (induction S) (simp_all add: each_def props_at_update_at)

lemma radio_group_name:
  assumes "q \<in> set (radio_group e p)" "sel_at e [AttrContains ''name'' nm] p"
  shows "sel_at e [AttrContains ''name'' nm] q"
  using assms
  by (auto simp: radio_group_def sel_at_def matches_def split: option.splits if_splits)

lemma check_all_other_names:
  assumes "\<forall>p \<in> set S. sel_at d [AttrContains ''name'' nm] p"
    and "\<not> sel_at d [AttrContains ''name'' nm] q"
  shows "props_at (prop_checked d S b) q = props_at d q"
proof -
  have nm: "sel_at (check_at p e) [AttrContains ''name'' nm] x = sel_at e [AttrContains ''name'' nm] x"
    for p e x
    by (simp add: sel_at_map props_at_check_at_inv matches_def)
  have "(\<forall>p \<in> set S. sel_at e [AttrContains ''name'' nm] p) \<Longrightarrow>
        \<not> sel_at e [AttrContains ''name'' nm] q \<Longrightarrow>
        props_at (foldl (\<lambda>e p. check_at p e) e S) q = props_at e q" for e
  proof (induction S arbitrary: e)
    case Nil
    then show ?case by simp
  next
    case (Cons p S)
    have "props_at (check_at p e) q = props_at e q"
      using Cons.prems radio_group_name[of q e p nm] by (auto simp: props_at_check_at)
    then show ?case using Cons.IH[of "check_at p e"] Cons.prems by (simp add: nm)
  qed
  moreover have "q \<notin> set S" using assms by auto
  ultimately show ?thesis using assms by (simp add: prop_checked_def props_at_each_notin)
qed

lemma find_in_sel: "p \<in> set (find_in d S sel) \<Longrightarrow> sel_at d sel p"
  by (simp add: find_in_def)

lemma sel_at_weaken: "sel_at d sel p \<Longrightarrow> set sel' \<subseteq> set sel \<Longrightarrow> sel_at d sel' p"
  by (auto simp: sel_at_def matches_def list_all_iff split: option.splits)

lemma flag_click_other_names:
  "\<not> sel_at d [AttrContains ''name'' ''preferred''] q \<Longrightarrow>
     map_option checked (props_at (preferred_click d t) q) = map_option checked (props_at d q)"
  "\<not> sel_at d [AttrContains ''name'' ''authorised''] q \<Longrightarrow>
     map_option checked (props_at (authorised_click d t) q) = map_option checked (props_at d q)"
proof -
  have step: "map_option checked (props_at (prop_checked (prop_checked d (find_in d X
            [Tag ''input'', AttrContains ''name'' nm, PseudoChecked]) False)
          (find_in (prop_checked d (find_in d X [Tag ''input'', AttrContains ''name'' nm, PseudoChecked]) False)
             Z [Tag ''input'', AttrContains ''name'' nm]) True) q)
        = map_option checked (props_at d q)"
    if "\<not> sel_at d [AttrContains ''name'' nm] q" for nm X Z
  proof -
    let ?A = "find_in d X [Tag ''input'', AttrContains ''name'' nm, PseudoChecked]"
    let ?d1 = "prop_checked d ?A False"
    let ?B = "find_in ?d1 Z [Tag ''input'', AttrContains ''name'' nm]"
    have a: "\<forall>p \<in> set ?A. sel_at d [AttrContains ''name'' nm] p"
      by (auto dest!: find_in_sel elim: sel_at_weaken)
    have inv: "sel_at ?d1 [AttrContains ''name'' nm] x = sel_at d [AttrContains ''name'' nm] x" for x
      by (rule sel_at_prop_checked) (simp add: matches_def)
    have b: "\<forall>p \<in> set ?B. sel_at ?d1 [AttrContains ''name'' nm] p"
      by (auto dest!: find_in_sel elim: sel_at_weaken)
    have "props_at (prop_checked ?d1 ?B True) q = props_at ?d1 q"
      using check_all_other_names[OF b] that inv by simp
    moreover have "props_at ?d1 q = props_at d q"
      using check_all_other_names[OF a that] .
    ultimately show ?thesis by simp
  qed
  show "\<not> sel_at d [AttrContains ''name'' ''preferred''] q \<Longrightarrow>
     map_option checked (props_at (preferred_click d t) q) = map_option checked (props_at d q)"
    unfolding preferred_click_unfold Let_def
    by (subst border_tail_inv) (simp_all add: step)
  show "\<not> sel_at d [AttrContains ''name'' ''authorised''] q \<Longrightarrow>
     map_option checked (props_at (authorised_click d t) q) = map_option checked (props_at d q)"
    unfolding authorised_click_unfold Let_def
    by (subst border_tail_inv) (simp_all add: step)
qed

lemma flag_click_no_sibling_checked:
  "(sel_at d [Tag ''input'', AttrContains ''name'' ''preferred''] t \<longrightarrow>
      find_in (preferred_click d t)
        (siblings (preferred_click d t) (closest (preferred_click d t) [t] [Tag ''fieldset'']))
        [Tag ''input'', AttrContains ''name'' ''preferred'', PseudoChecked] = [])
   \<and> (sel_at d [Tag ''input'', AttrContains ''name'' ''authorised''] t \<longrightarrow>
      find_in (authorised_click d t)
        (siblings (authorised_click d t) (closest (authorised_click d t) [t] [Tag ''fieldset'']))
        [Tag ''input'', AttrContains ''name'' ''authorised'', PseudoChecked] = [])"
proof (intro conjI impI)
  have fs: "sel_at (preferred_click d t) [Tag ''fieldset''] q = sel_at d [Tag ''fieldset''] q"
           "sel_at (authorised_click d t) [Tag ''fieldset''] q = sel_at d [Tag ''fieldset''] q" for q
    by (rule flag_click_sel_at; simp add: matches_def)+
  have clP: "closest (preferred_click d t) [t] [Tag ''fieldset''] = closest d [t] [Tag ''fieldset'']"
    using traversal_cong(7)[of "preferred_click d t" d "[Tag ''fieldset'']"] fs by simp
  have clA: "closest (authorised_click d t) [t] [Tag ''fieldset''] = closest d [t] [Tag ''fieldset'']"
    using traversal_cong(7)[of "authorised_click d t" d "[Tag ''fieldset'']"] fs by simp
  have sibP: "siblings (preferred_click d t) S = siblings d S" for S
    by (rule siblings_cong) simp
  have sibA: "siblings (authorised_click d t) S = siblings d S" for S
    by (rule siblings_cong) simp
  {
    assume t: "sel_at d [Tag ''input'', AttrContains ''name'' ''preferred''] t"
    let ?selC = "[Tag ''input'', AttrContains ''name'' ''preferred'', PseudoChecked]"
    let ?d1 = "prop_checked d (find_in d (siblings d (parents d [t] [Tag ''fieldset''])) ?selC) False"
    let ?d2 = "prop_checked ?d1 (find_in ?d1 (closest ?d1 [t] [Tag ''fieldset''])
                 [Tag ''input'', AttrContains ''name'' ''preferred'']) True"
    have nf: "\<not> sel_at d [Tag ''fieldset''] t"
      using t by (auto simp: sel_at_def matches_def split: option.splits)
    have sub: "set (siblings d (closest d [t] [Tag ''fieldset'']))
        \<subseteq> set (siblings d (parents d [t] [Tag ''fieldset'']))"
      by (rule siblings_mono) (rule closest_in_parents[OF nf])
    have tail: "sel_at (preferred_click d t) ?selC q = sel_at ?d2 ?selC q" for q
      unfolding sel_at_map preferred_click_unfold Let_def
      by (rule arg_cong[where f = "\<lambda>x. x = Some True"], rule border_tail_inv)
         (simp_all add: matches_def)
    have "\<not> sel_at (preferred_click d t) ?selC q"
      if "s \<in> set (siblings d (closest d [t] [Tag ''fieldset'']))" "strict_prefix s q" for s q
      using exclusive_core[OF sub that] by (simp add: tail)
    then show "find_in (preferred_click d t)
        (siblings (preferred_click d t) (closest (preferred_click d t) [t] [Tag ''fieldset'']))
        ?selC = []"
      unfolding clP sibP by (auto simp: find_in_def filter_empty_conv)
  }
  {
    assume t: "sel_at d [Tag ''input'', AttrContains ''name'' ''authorised''] t"
    let ?selC = "[Tag ''input'', AttrContains ''name'' ''authorised'', PseudoChecked]"
    let ?d1 = "prop_checked d (find_in d (siblings d (closest d [t] [Tag ''fieldset''])) ?selC) False"
    let ?d2 = "prop_checked ?d1 (find_in ?d1 (closest ?d1 [t] [Tag ''fieldset''])
                 [Tag ''input'', AttrContains ''name'' ''authorised'']) True"
    have tail: "sel_at (authorised_click d t) ?selC q = sel_at ?d2 ?selC q" for q
      unfolding sel_at_map authorised_click_unfold Let_def
      by (rule arg_cong[where f = "\<lambda>x. x = Some True"], rule border_tail_inv)
         (simp_all add: matches_def)
    have "\<not> sel_at (authorised_click d t) ?selC q"
      if "s \<in> set (siblings d (closest d [t] [Tag ''fieldset'']))" "strict_prefix s q" for s q
      using exclusive_core[OF subset_refl that] by (simp add: tail)
    then show "find_in (authorised_click d t)
        (siblings (authorised_click d t) (closest (authorised_click d t) [t] [Tag ''fieldset'']))
        ?selC = []"
      unfolding clA sibA by (auto simp: find_in_def filter_empty_conv)
  }
qed

lemma flag_core_checked:
  fixes nm :: string
  assumes t: "sel_at d [Tag ''input'', AttrContains ''name'' nm] t"
    and row: "closest d [t] [Tag ''fieldset''] \<noteq> []"
    and nr: "\<not> sel_at d [PseudoRadio] t"
  shows "map_option checked
           (props_at (prop_checked (prop_checked d A False)
                        (find_in (prop_checked d A False)
                           (closest (prop_checked d A False) [t] [Tag ''fieldset''])
                           [Tag ''input'', AttrContains ''name'' nm]) True) t) = Some True"
proof -
  let ?d1 = "prop_checked d A False"
  let ?selP = "[Tag ''input'', AttrContains ''name'' nm]"
  have fs: "sel_at ?d1 [Tag ''fieldset''] x = sel_at d [Tag ''fieldset''] x" for x
    by (rule sel_at_prop_checked) (simp add: matches_def)
  have cl: "closest ?d1 [t] [Tag ''fieldset''] = closest d [t] [Tag ''fieldset'']"
    using traversal_cong(7)[of ?d1 d "[Tag ''fieldset'']"] fs by simp
  from row obtain r where r: "r \<in> set (closest d [t] [Tag ''fieldset''])"
    by (cases "closest d [t] [Tag ''fieldset'']") auto
  then have c: "closest1 d [Tag ''fieldset''] t = Some r" by (simp add: closest_mem)
  then have rp: "prefix r t" "r \<noteq> []" "sel_at d [Tag ''fieldset''] r"
    using closest1_Some by blast+
  have "\<not> sel_at d [Tag ''fieldset''] t"
    using t by (auto simp: sel_at_def matches_def split: option.splits)
  then have "r \<noteq> t" using rp(3) by auto
  then have sp: "strict_prefix r t" using rp(1) by (simp add: strict_prefix_def)
  then have tne: "t \<noteq> []" by auto
  have t1: "sel_at ?d1 ?selP t"
    using t sel_at_prop_checked[of ?selP d A False t] by (simp add: matches_def)
  have te: "t \<in> set (elements ?d1)"
    using t tne sel_at_elements[of d ?selP t] by simp
  have mem: "t \<in> set (find_in ?d1 (closest ?d1 [t] [Tag ''fieldset'']) ?selP)"
    unfolding cl find_in_def[of ?d1] using r sp t1 te by auto
  have nr1: "\<not> sel_at ?d1 [PseudoRadio] t"
    using nr sel_at_prop_checked[of "[PseudoRadio]" d A False t] by (simp add: matches_def)
  have ex: "props_at ?d1 t \<noteq> None"
    using te unfolding elements_mem by blast
  show ?thesis by (rule checked_in_check_all[OF mem nr1 ex])
qed

subsection \<open>The primary record handler\<close>

lemma primary_record_click_unfold:
  "primary_record_click d t =
     (let DL = children d (jq d [Cls ''duplicate-cell'']) [Tag ''label''];
          C = closest d [t] [Cls ''primary-cell''];
          N = next_sib d C [Cls ''duplicate-cell''];
          d5 = each (each (each (each (each d (jq d [Cls ''primary-cell'']) (removeClass ''border-left''))
                  (children d (jq d [Cls ''primary-cell'']) [Tag ''label'']) (removeClass ''selected''))
                  DL (removeClass ''disabled'')) DL show_elem) C (addClass ''border-left'')
      in if is_sel d [t] [PseudoChecked]
         then each (prop_checked (each d5 (parent d [t] [Tag ''label'']) (addClass ''selected''))
                      (find_in d N [Tag ''input'', AttrEq ''type'' ''radio'', PseudoChecked]) False)
                (children d N [Tag ''label'']) (addClass ''disabled'')
         else d5)"
  by (simp add: primary_record_click_def Let_def each_queries prop_checked_queries
      hasClass_addClass hasClass_removeClass)

lemma primary_record_click_checked:
  assumes chk: "is_sel d [t] [PseudoChecked]"
  defines "N \<equiv> next_sib d (closest d [t] [Cls ''primary-cell'']) [Cls ''duplicate-cell'']"
  defines "R \<equiv> [Tag ''input'', AttrEq ''type'' ''radio'', PseudoChecked]"
  defines "DL \<equiv> children d (jq d [Cls ''duplicate-cell'']) [Tag ''label'']"
  shows "find_in (primary_record_click d t)
           (next_sib (primary_record_click d t)
              (closest (primary_record_click d t) [t] [Cls ''primary-cell''])
              [Cls ''duplicate-cell'']) R = []"
    and "q \<in> set DL \<Longrightarrow> q \<notin> set (children d N [Tag ''label'']) \<Longrightarrow>
           \<exists>pr. props_at (primary_record_click d t) q = Some pr
                \<and> \<not> hasClass ''disabled'' pr \<and> \<not> hidden pr"
    and "q \<in> set (children d N [Tag ''label'']) \<Longrightarrow>
           \<exists>pr. props_at (primary_record_click d t) q = Some pr \<and> hasClass ''disabled'' pr"
    and "q \<notin> set (find_in d N R) \<Longrightarrow>
           map_option checked (props_at (primary_record_click d t) q)
             = map_option checked (props_at d q)"
proof -
  define d3 where "d3 = each (each (each d (jq d [Cls ''primary-cell'']) (removeClass ''border-left''))
                  (children d (jq d [Cls ''primary-cell'']) [Tag ''label'']) (removeClass ''selected''))
                  DL (removeClass ''disabled'')"
  define d6 where "d6 = each (each (each d3 DL show_elem) (closest d [t] [Cls ''primary-cell''])
                           (addClass ''border-left''))
                      (parent d [t] [Tag ''label'']) (addClass ''selected'')"
  define d7 where "d7 = prop_checked d6 (find_in d N R) False"
  have d': "primary_record_click d t = each d7 (children d N [Tag ''label'']) (addClass ''disabled'')"
    using chk
    by (simp add: primary_record_click_unfold Let_def d3_def d6_def d7_def N_def R_def DL_def)
  have el: "elements d7 = elements d" "elements d6 = elements d" "elements d3 = elements d"
    by (simp_all add: d7_def d6_def d3_def)
  have cls: "map_option g (props_at d6 x) = map_option g (props_at d x)"
    if "\<And>c pr. g (addClass c pr) = g pr" "\<And>c pr. g (removeClass c pr) = g pr"
       "\<And>pr. g (show_elem pr) = g pr" for g :: "props \<Rightarrow> bool" and x
    by (simp add: d6_def d3_def props_at_each_inv that)
  have selR6: "sel_at d6 R x = sel_at d R x" for x
    unfolding sel_at_map by (rule arg_cong[where f = "\<lambda>x. x = Some True"], rule cls)
      (simp_all add: R_def)
  have p7: "props_at d7 x = (if x \<in> set (find_in d N R)
              then map_option (set_checked False) (props_at d6 x) else props_at d6 x)" for x
    by (simp add: d7_def props_at_uncheck)
  have notR: "\<not> sel_at (primary_record_click d t) R x" if "s \<in> set N" "strict_prefix s x" for s x
  proof
    assume m: "sel_at (primary_record_click d t) R x"
    have "sel_at (each d7 (children d N [Tag ''label'']) (addClass ''disabled'')) R x = sel_at d7 R x"
      by (rule sel_at_each) (simp add: R_def)
    then have m7: "sel_at d7 R x" using m d' by simp
    then have nf: "x \<notin> set (find_in d N R)"
      by (auto simp: sel_at_def p7 R_def split: option.splits if_splits)
    then have "sel_at d R x" using m7 selR6 by (simp add: sel_at_def p7)
    moreover have "x \<noteq> []" using that(2) by auto
    ultimately have "x \<in> set (find_in d N R)"
      using that by (auto simp: find_in_def sel_at_elements)
    then show False using nf by simp
  qed
  have q1: "closest (primary_record_click d t) [t] [Cls ''primary-cell'']
              = closest d [t] [Cls ''primary-cell'']"
    by (simp add: d' d7_def d6_def d3_def each_queries prop_checked_queries
        hasClass_addClass hasClass_removeClass)
  have q2: "next_sib (primary_record_click d t) T [Cls ''duplicate-cell'']
              = next_sib d T [Cls ''duplicate-cell'']" for T
    by (simp add: d' d7_def d6_def d3_def each_queries prop_checked_queries
        hasClass_addClass hasClass_removeClass)
  show "find_in (primary_record_click d t)
           (next_sib (primary_record_click d t)
              (closest (primary_record_click d t) [t] [Cls ''primary-cell''])
              [Cls ''duplicate-cell'']) R = []"
    unfolding q1 q2 using notR
    by (auto simp: find_in_def filter_empty_conv N_def)
  have ex: "\<exists>pr. props_at d7 x = Some pr" if "x \<in> set (elements d)" for x
    using that el(1) unfolding elements_mem[symmetric] by (metis elements_mem not_None_eq)
  show "\<exists>pr. props_at (primary_record_click d t) q = Some pr \<and> hasClass ''disabled'' pr"
    if "q \<in> set (children d N [Tag ''label''])"
  proof -
    have "q \<in> set (elements d)" using that by (simp add: children_def)
    then obtain pr where "props_at d7 q = Some pr" using ex by blast
    then show ?thesis using that by (simp add: d' props_at_each hasClass_addClass)
  qed
  show "\<exists>pr. props_at (primary_record_click d t) q = Some pr
                \<and> \<not> hasClass ''disabled'' pr \<and> \<not> hidden pr"
    if q: "q \<in> set DL" "q \<notin> set (children d N [Tag ''label''])"
  proof -
    have qe: "q \<in> set (elements d)" using q(1) by (simp add: DL_def children_def)
    then obtain pr where pr: "props_at d7 q = Some pr" using ex by blast
    have same: "props_at (primary_record_click d t) q = Some pr"
      using q(2) pr by (simp add: d' props_at_each)
    define g where "g = (\<lambda>pr. \<not> hasClass ''disabled'' pr \<and> \<not> hidden pr)"
    have dl: "distinct DL" by (simp add: DL_def)
    have "DL = children d (jq d [Cls ''duplicate-cell'']) [Tag ''label'']" by (simp add: DL_def)
    have g3: "map_option (\<lambda>pr. hasClass ''disabled'' pr) (props_at d3 q) = map_option (\<lambda>_. False) (props_at d q)"
      using q(1) dl
      by (simp add: d3_def props_at_each option.map_comp comp_def hasClass_removeClass)
    have g4: "map_option g (props_at (each d3 DL show_elem) q) = map_option (\<lambda>_. True) (props_at d q)"
    proof -
      have "props_at (each d3 DL show_elem) q = map_option show_elem (props_at d3 q)"
        using q(1) dl by (simp add: props_at_each)
      then have "map_option g (props_at (each d3 DL show_elem) q)
          = map_option (\<lambda>pr. \<not> hasClass ''disabled'' pr) (props_at d3 q)"
        by (simp add: option.map_comp comp_def g_def)
      also have "\<dots> = map_option Not (map_option (\<lambda>pr. hasClass ''disabled'' pr) (props_at d3 q))"
        by (simp add: option.map_comp comp_def)
      finally show ?thesis by (simp add: g3 option.map_comp comp_def)
    qed
    have "map_option g (props_at d7 q) = map_option g (props_at (each d3 DL show_elem) q)"
      by (simp add: d7_def d6_def props_at_prop_checked_inv props_at_each_inv g_def hasClass_addClass)
    then have "g pr" using pr g4 by (auto simp: map_option_case split: option.splits)
    then show ?thesis using same by (simp add: g_def)
  qed
  show "map_option checked (props_at (primary_record_click d t) q) = map_option checked (props_at d q)"
    if "q \<notin> set (find_in d N R)"
  proof -
    have "map_option checked (props_at (primary_record_click d t) q) = map_option checked (props_at d7 q)"
      by (simp add: d' props_at_each_inv)
    also have "\<dots> = map_option checked (props_at d6 q)" using that by (simp add: p7)
    also have "\<dots> = map_option checked (props_at d q)"
      by (simp add: d6_def d3_def props_at_each_inv)
    finally show ?thesis .
  qed
qed

subsection \<open>Facts for addEmptyForm\<close>

subsection \<open>Appending children\<close>

lemma node_at_append: "node_at d (p @ q) = (case node_at d p of None \<Rightarrow> None | Some n \<Rightarrow> node_at n q)"
  by (induction p arbitrary: d) auto

lemma node_at_update_kids_at_self:
  "node_at d fp = Some (Elem pr ks) \<Longrightarrow> node_at (update_kids_at fp g d) fp = Some (Elem pr (g ks))"
proof (induction fp arbitrary: d)
  case Nil
  then show ?case by simp
next
  case (Cons i fp)
  then show ?case by (cases d) (auto split: if_splits)
qed

text \<open>
  After an append, what was there is where it was, and the new nodes follow the old
  children of the parent.
\<close>

lemma node_at_append_kids_old:
  "node_at d q = Some n \<Longrightarrow> \<exists>n'. node_at (update_kids_at fp (\<lambda>ks. ks @ new) d) q = Some n'
      \<and> (case n of Elem pr ks \<Rightarrow> (\<exists>ks'. n' = Elem pr ks') | Text s \<Rightarrow> n' = Text s)"
proof (induction q arbitrary: d fp n)
  case Nil
  then show ?case by (cases d; cases fp) auto
next
  case (Cons j q)
  then obtain pr ks where d: "d = Elem pr ks" by (cases d) auto
  have j: "j < length ks" "node_at (ks ! j) q = Some n" using Cons.prems d by (auto split: if_splits)
  show ?case
  proof (cases fp)
    case Nil
    then show ?thesis using d j by (cases n) (auto simp: nth_append)
  next
    case (Cons i fp')
    show ?thesis
    proof (cases "i = j")
      case True
      then show ?thesis using Cons d j Cons.IH[OF j(2), of fp'] by auto
    next
      case False
      then show ?thesis using Cons d j by (cases n) auto
    qed
  qed
qed

lemma props_at_append_kids_old:
  "props_at d q = Some pr \<Longrightarrow> props_at (update_kids_at fp (\<lambda>ks. ks @ new) d) q = Some pr"
proof -
  assume "props_at d q = Some pr"
  then obtain ks where "node_at d q = Some (Elem pr ks)"
    by (auto simp: props_at_def split: option.splits node.splits)
  from node_at_append_kids_old[OF this, of fp new] show ?thesis
    by (auto simp: props_at_def)
qed

lemma node_at_append_kids_new:
  assumes "node_at d fp = Some (Elem pr ks)" "i < length new"
  shows "node_at (update_kids_at fp (\<lambda>ks. ks @ new) d) (fp @ (length ks + i) # r) = node_at (new ! i) r"
  using node_at_update_kids_at_self[OF assms(1), of "\<lambda>ks. ks @ new"] assms(2)
  by (simp add: node_at_append nth_append)

lemma props_at_append_kids_new:
  assumes "node_at d fp = Some (Elem pr ks)" "i < length new"
  shows "props_at (update_kids_at fp (\<lambda>ks. ks @ new) d) (fp @ (length ks + i) # r) = props_at (new ! i) r"
  using node_at_append_kids_new[OF assms] by (simp add: props_at_def)

lemma node_at_append_kids_fresh:
  "node_at d fp = Some (Elem pr ks) \<Longrightarrow> node_at d q = None \<Longrightarrow>
   node_at (update_kids_at fp (\<lambda>ks. ks @ new) d) q = Some n \<Longrightarrow>
   \<exists>i r. q = fp @ (length ks + i) # r \<and> i < length new"
proof (induction fp arbitrary: d q)
  case Nil
  then obtain j r where q: "q = j # r" by (cases q) auto
  have d: "d = Elem pr ks" using Nil by simp
  have "j < length ks + length new" using Nil q d by (auto split: if_splits)
  moreover have "\<not> j < length ks" using Nil q d by (auto simp: nth_append split: if_splits)
  ultimately show ?case using q by (intro exI[of _ "j - length ks"] exI[of _ r]) auto
next
  case (Cons i fp)
  then obtain pr0 ks0 where d: "d = Elem pr0 ks0" by (cases d) auto
  have i: "i < length ks0" "node_at (ks0 ! i) fp = Some (Elem pr ks)"
    using Cons.prems(1) d by (auto split: if_splits)
  obtain j r where q: "q = j # r" using Cons.prems(2) by (cases q) auto
  have j: "j < length ks0" using Cons.prems(3) q d i by (auto split: if_splits)
  have "j = i" using Cons.prems(2,3) q d i j by (cases "j = i") auto
  then have "node_at (ks0 ! i) r = None"
    "node_at (update_kids_at fp (\<lambda>ks. ks @ new) (ks0 ! i)) r = Some n"
    using Cons.prems(2,3) q d i by auto
  from Cons.IH[OF i(2) this] show ?case using q \<open>j = i\<close> by auto
qed

lemma elements_append_kids:
  assumes "node_at d fp = Some (Elem pr ks)"
  shows "q \<in> set (elements (update_kids_at fp (\<lambda>ks. ks @ new) d)) \<longleftrightarrow>
         q \<in> set (elements d)
         \<or> (\<exists>i r. q = fp @ (length ks + i) # r \<and> i < length new \<and> r \<in> set (elem_paths (new ! i)))"
proof -
  let ?d2 = "update_kids_at fp (\<lambda>ks. ks @ new) d"
  have old: "props_at d q \<noteq> None \<Longrightarrow> props_at ?d2 q \<noteq> None"
    using props_at_append_kids_old[of d q _ fp new] by auto
  have new: "props_at ?d2 (fp @ (length ks + i) # r) = props_at (new ! i) r" if "i < length new" for i r
    using props_at_append_kids_new[OF assms that] .
  have fresh: "\<exists>i r. q = fp @ (length ks + i) # r \<and> i < length new"
    if a: "props_at ?d2 q \<noteq> None" and b: "props_at d q = None"
  proof (cases "node_at d q")
    case None
    from a obtain n where "node_at ?d2 q = Some n" by (auto simp: props_at_def split: option.splits)
    from node_at_append_kids_fresh[OF assms None this] show ?thesis .
  next
    case (Some n)
    then obtain s where "n = Text s" using b by (cases n) (auto simp: props_at_def)
    then have "node_at ?d2 q = Some (Text s)"
      using node_at_append_kids_old[OF Some, of fp new] by auto
    then show ?thesis using a by (simp add: props_at_def)
  qed
  show ?thesis
  proof
    assume "q \<in> set (elements ?d2)"
    then have q: "q \<noteq> []" "props_at ?d2 q \<noteq> None" by (simp_all add: elements_mem)
    show "q \<in> set (elements d)
         \<or> (\<exists>i r. q = fp @ (length ks + i) # r \<and> i < length new \<and> r \<in> set (elem_paths (new ! i)))"
    proof (cases "props_at d q")
      case None
      from fresh[OF q(2) None] obtain i r where ir: "q = fp @ (length ks + i) # r" "i < length new"
        by blast
      then have "props_at (new ! i) r \<noteq> None" using q(2) new by simp
      then show ?thesis using ir by (auto simp: elem_paths_mem)
    next
      case (Some a)
      then show ?thesis using q by (simp add: elements_mem)
    qed
  next
    assume "q \<in> set (elements d)
         \<or> (\<exists>i r. q = fp @ (length ks + i) # r \<and> i < length new \<and> r \<in> set (elem_paths (new ! i)))"
    then show "q \<in> set (elements ?d2)"
      using old new by (auto simp: elements_mem elem_paths_mem)
  qed
qed

subsection \<open>The loop over the new controls\<close>

lemma control_step_frame:
  assumes "\<And>a v pr. g (set_attr a v pr) = g pr"
  shows "map_option g (props_at (fst (state_of (control_step pn pi p st))) q)
           = map_option g (props_at (fst st) q)"
  by (auto simp: control_step_def Let_def props_at_update_at_inv assms
      split: prod.splits option.splits)

lemma control_step_shape:
  "elements (fst (state_of (control_step pn pi p st))) = elements (fst st)"
  "node_at (fst (state_of (control_step pn pi p st))) q = Some (Text s)
           \<longleftrightarrow> node_at (fst st) q = Some (Text s)"
  by (auto simp: control_step_def Let_def node_at_text_update_at
      split: prod.splits option.splits)

lemma each_control_frame:
  assumes "\<And>a v pr. g (set_attr a v pr) = g pr"
  shows "map_option g (props_at (fst (state_of (each_control pn pi cs st))) q)
           = map_option g (props_at (fst st) q)
       \<and> elements (fst (state_of (each_control pn pi cs st))) = elements (fst st)
       \<and> (node_at (fst (state_of (each_control pn pi cs st))) q = Some (Text s)
           \<longleftrightarrow> node_at (fst st) q = Some (Text s))"
proof (induction cs arbitrary: st)
  case Nil
  then show ?case by simp
next
  case (Cons p cs)
  define st' where "st' = state_of (control_step pn pi p st)"
  have one: "map_option g (props_at (fst st') q) = map_option g (props_at (fst st) q)"
      "elements (fst st') = elements (fst st)"
      "node_at (fst st') q = Some (Text s) \<longleftrightarrow> node_at (fst st) q = Some (Text s)"
    unfolding st'_def
    by (rule control_step_frame[OF assms], rule control_step_shape, rule control_step_shape)
  show ?case
  proof (cases "control_step pn pi p st")
    case (Normal x)
    then have "x = st'" by (simp add: st'_def)
    then show ?thesis using Normal Cons.IH[of st'] one by simp
  next
    case (Throw err x)
    then have "x = st'" by (simp add: st'_def)
    then show ?thesis using Throw one by simp
  next
    case (Unmodelled x)
    then have "x = st'" by (simp add: st'_def)
    then show ?thesis using Unmodelled one by simp
  qed
qed

lemma each_control_other:
  "q \<notin> set cs \<Longrightarrow> props_at (fst (state_of (each_control pn pi cs st))) q = props_at (fst st) q"
proof (induction cs arbitrary: st)
  case Nil
  then show ?case by simp
next
  case (Cons p cs)
  have step: "props_at (fst (state_of (control_step pn pi p st))) q = props_at (fst st) q"
    using Cons.prems
    by (auto simp: control_step_def Let_def props_at_update_at split: prod.splits option.splits)
  show ?case
  proof (cases "control_step pn pi p st")
    case (Normal st')
    then show ?thesis using Cons.IH[of st'] Cons.prems step by simp
  next
    case (Throw err st')
    then show ?thesis using step by simp
  next
    case (Unmodelled st')
    then show ?thesis using step by simp
  qed
qed

text \<open>
  When every control has a name and an id the loop ends normally, and each control has
  both attributes rewritten.
\<close>

lemma attr_set_attr: "attr (set_attr a v pr) b = (if b = a then Some v else attr pr b)"
  by (simp add: attr_def set_attr_def update_conv')

lemma each_control_normal:
  assumes "distinct cs"
    and "\<forall>p \<in> set cs. \<exists>pr nv iv. props_at e p = Some pr \<and> attr pr ''name'' = Some nv
            \<and> attr pr ''id'' = Some iv"
  shows "\<exists>e' log'. each_control pn pi cs (e, log) = Normal (e', log')
       \<and> (\<forall>p \<in> set cs. \<exists>pr nv iv. props_at e p = Some pr \<and> attr pr ''name'' = Some nv
            \<and> attr pr ''id'' = Some iv
            \<and> props_at e' p = Some (set_attr ''id'' (new_attr pi iv)
                                       (set_attr ''name'' (new_attr pn nv) pr)))"
  using assms
proof (induction cs arbitrary: e log)
  case Nil
  then show ?case by simp
next
  case (Cons p cs)
  from Cons.prems(2) obtain pr nv iv where p: "props_at e p = Some pr" "attr pr ''name'' = Some nv"
      "attr pr ''id'' = Some iv" by auto
  define e2 where "e2 = update_at p (set_attr ''id'' (new_attr pi iv))
                          (update_at p (set_attr ''name'' (new_attr pn nv)) e)"
  have step: "\<exists>l. control_step pn pi p (e, log) = Normal (e2, l)"
    using p by (simp add: control_step_def Let_def attr_of_def props_at_update_at attr_set_attr e2_def)
  then obtain l where l: "control_step pn pi p (e, log) = Normal (e2, l)" by blast
  have pe2: "props_at e2 q = (if q = p then Some (set_attr ''id'' (new_attr pi iv)
                 (set_attr ''name'' (new_attr pn nv) pr)) else props_at e q)" for q
    using p by (simp add: e2_def props_at_update_at)
  have rest: "\<forall>q \<in> set cs. \<exists>pr nv iv. props_at e2 q = Some pr \<and> attr pr ''name'' = Some nv
            \<and> attr pr ''id'' = Some iv"
    using Cons.prems by (auto simp: pe2)
  from Cons.IH[OF _ rest, of l] Cons.prems(1)
  obtain e' log' where r: "each_control pn pi cs (e2, l) = Normal (e', log')"
    "\<forall>q \<in> set cs. \<exists>pr nv iv. props_at e2 q = Some pr \<and> attr pr ''name'' = Some nv
            \<and> attr pr ''id'' = Some iv
            \<and> props_at e' q = Some (set_attr ''id'' (new_attr pi iv)
                                       (set_attr ''name'' (new_attr pn nv) pr))"
    by auto
  have "p \<notin> set cs" using Cons.prems(1) by simp
  then have "props_at e' p = props_at e2 p"
    using each_control_other[of p cs pn pi "(e2, l)"] r(1) by simp
  then have "props_at e' p = Some (set_attr ''id'' (new_attr pi iv)
                 (set_attr ''name'' (new_attr pn nv) pr))"
    by (simp add: pe2)
  moreover have "\<forall>q \<in> set cs. \<exists>pr nv iv. props_at e q = Some pr \<and> attr pr ''name'' = Some nv
            \<and> attr pr ''id'' = Some iv
            \<and> props_at e' q = Some (set_attr ''id'' (new_attr pi iv)
                                       (set_attr ''name'' (new_attr pn nv) pr))"
  proof
    fix q assume q: "q \<in> set cs"
    then have "q \<noteq> p" using \<open>p \<notin> set cs\<close> by auto
    then have "props_at e2 q = props_at e q" by (simp add: pe2)
    then show "\<exists>pr nv iv. props_at e q = Some pr \<and> attr pr ''name'' = Some nv
            \<and> attr pr ''id'' = Some iv
            \<and> props_at e' q = Some (set_attr ''id'' (new_attr pi iv)
                                       (set_attr ''name'' (new_attr pn nv) pr))"
      using r(2)[rule_format, OF q] by simp
  qed
  ultimately show ?case using l r(1) p by auto
qed

lemma fill_new_form_frame:
  assumes "\<And>a v pr. g (set_attr a v pr) = g pr"
  shows "map_option g (props_at (fst (state_of (fill_new_form e nf d tc n))) q)
           = map_option g (props_at e q)"
    and "elements (fst (state_of (fill_new_form e nf d tc n))) = elements e"
    and "node_at (fst (state_of (fill_new_form e nf d tc n))) q = Some (Text s)
           \<longleftrightarrow> node_at e q = Some (Text s)"
  using each_control_frame[OF assms, of _ _ _ "(e, [])" q s]
  by (auto simp: fill_new_form_def Let_def split: sum.splits)

lemma append_to_single: "append_to d [fp] new = update_kids_at fp (\<lambda>ks. ks @ new) d"
  by (simp add: append_to_def)

text \<open>An identifier is the selector for its own value.\<close>

lemma ident_char_not_space: "is_ident_char c \<Longrightarrow> \<not> is_html_space c"
  by (auto simp: is_ident_char_def is_html_space_def)

lemma words_from_no_space:
  "list_all (\<lambda>c. \<not> is_html_space c) s \<Longrightarrow> cur @ s \<noteq> [] \<Longrightarrow> words_from cur s = [cur @ s]"
  by (induction s arbitrary: cur) auto

lemma data_form_type_selector_identifier:
  assumes "selector_identifier s"
  shows "data_form_type_selector s = Parsed [AttrEq ''data-form-type'' s]"
proof -
  have a: "list_all is_ident_char s" "s \<noteq> []" using assms by (simp_all add: selector_identifier_def)
  then have "list_all (\<lambda>c. \<not> is_html_space c) s"
    by (auto simp: list_all_iff ident_char_not_space)
  then have "split_words s = [s]"
    using words_from_no_space[of s "[]"] a(2) by (simp add: split_words_def)
  moreover have "list_all (\<lambda>c. is_ident_char c \<or> is_html_space c) s"
    using a(1) by (auto simp: list_all_iff)
  ultimately show ?thesis by (simp add: data_form_type_selector_def)
qed

text \<open>
  A form type that is no selector value ends \<open>addEmptyForm\<close> with jQuery's error, after
  the label was hidden and before anything is appended or counted.
\<close>

lemma addEmptyForm_malformed:
  assumes "to_number (attr_of d (children d (getManagementFormContainer d [ctx])
                  [Tag ''input'', AttrEnds ''name'' ''MAX_NUM_FORMS'']) ''value'') = Some m"
    and "to_number (attr_of d (children d (getManagementFormContainer d [ctx])
                  [Tag ''input'', AttrEnds ''name'' ''TOTAL_FORMS'']) ''value'') = Some n"
    and "data_form_type_selector ft = Malformed"
  shows "addEmptyForm d ft ctx
           = Some (Throw SelectorError
                    (if js_ge (js_succ n) m
                     then each d (parent d [ctx] [Tag ''label'']) hide_elem else d, []))"
  using assms unfolding addEmptyForm_def Let_def by simp

lemma data_form_type_selector_two_words:
  "data_form_type_selector ''name part'' = Malformed"
  by code_simp

text \<open>
  What \<open>addEmptyForm\<close> leaves alone: apart from the label it may hide, nothing but
  attributes changes on the elements that were there.
\<close>

lemma addEmptyForm_frame:
  assumes mx: "to_number (attr_of d (children d (getManagementFormContainer d [ctx])
                  [Tag ''input'', AttrEnds ''name'' ''MAX_NUM_FORMS'']) ''value'') = Some m"
    and n: "to_number (attr_of d (children d (getManagementFormContainer d [ctx])
                  [Tag ''input'', AttrEnds ''name'' ''TOTAL_FORMS'']) ''value'') = Some n"
    and g: "\<And>a v pr. g (set_attr a v pr) = g pr"
    and q: "props_at d q \<noteq> None"
  shows "\<exists>c. addEmptyForm d ft ctx = Some c
      \<and> map_option g (props_at (fst (state_of c)) q)
          = map_option g (props_at (if js_ge (js_succ n) m
                                    then each d (parent d [ctx] [Tag ''label'']) hide_elem else d) q)"
proof -
  define d1 where "d1 = (if js_ge (js_succ n) m
                         then each d (parent d [ctx] [Tag ''label'']) hide_elem else d)"
  define tc where "tc = children d (getManagementFormContainer d [ctx])
                  [Tag ''input'', AttrEnds ''name'' ''TOTAL_FORMS'']"
  have q1: "props_at d1 q \<noteq> None"
    using q by (cases "js_ge (js_succ n) m") (simp_all add: d1_def del: not_None_eq)
  show ?thesis
  proof (cases "data_form_type_selector ft")
    case Malformed
    then have "addEmptyForm d ft ctx = Some (Throw SelectorError (d1, []))"
      using mx n unfolding addEmptyForm_def d1_def Let_def by simp
    then show ?thesis by (simp add: d1_def)
  next
    case Unparsed
    then have "addEmptyForm d ft ctx = Some (Unmodelled (d1, []))"
      using mx n unfolding addEmptyForm_def d1_def Let_def by simp
    then show ?thesis by (simp add: d1_def)
  next
    case (Parsed blueprint)
    define clones where "clones = map (\<lambda>p. the (node_at d1 p))
                             (children d1 (jq_id d1 ''empty_forms'') blueprint)"
    define filled where "filled =
                    (case getNewFormParent d1 [ctx] of
                       [] \<Rightarrow>
                         (case fill_new_form (elem ''#fragment'' [] clones)
                                 (map (\<lambda>i. [i]) [0 ..< length clones]) d1 tc n of
                            Normal (e, log) \<Rightarrow> Normal (d1, log)
                          | Throw err (e, log) \<Rightarrow> Throw err (d1, log)
                          | Unmodelled (e, log) \<Rightarrow> Unmodelled (d1, log))
                     | fp # _ \<Rightarrow>
                         (let n0 = length (kids (the (node_at d1 fp)));
                              d2 = append_to d1 [fp] clones
                          in fill_new_form d2 (map (\<lambda>i. fp @ [i]) [n0 ..< n0 + length clones])
                               d2 tc n))"
    have res: "addEmptyForm d ft ctx =
        Some (case filled of
                Throw err st \<Rightarrow> Throw err st
              | Unmodelled st \<Rightarrow> Unmodelled st
              | Normal (d3, log) \<Rightarrow>
                  (let d4 = each d3 tc (set_attr ''value'' (number_to_string (js_succ n)))
                   in Normal (d4, log @ [initAutocompleteWidgets d4])))"
      using mx n Parsed unfolding addEmptyForm_def filled_def clones_def tc_def d1_def Let_def
      by simp
    have fl: "map_option g (props_at (fst (state_of filled)) q) = map_option g (props_at d1 q)"
    proof (cases "getNewFormParent d1 [ctx]")
      case Nil
      then show ?thesis
        by (auto simp: filled_def split: completion.splits prod.splits)
    next
      case (Cons fp rest)
      obtain pr where "props_at d1 q = Some pr" using q1 by auto
      then have "props_at (append_to d1 [fp] clones) q = props_at d1 q"
        by (simp add: append_to_single props_at_append_kids_old)
      then show ?thesis using Cons
        by (simp add: filled_def Let_def fill_new_form_frame(1)[OF g])
    qed
    have "map_option g (props_at (fst (state_of (case filled of
                Throw err st \<Rightarrow> Throw err st
              | Unmodelled st \<Rightarrow> Unmodelled st
              | Normal (d3, log) \<Rightarrow>
                  (let d4 = each d3 tc (set_attr ''value'' (number_to_string (js_succ n)))
                   in Normal (d4, log @ [initAutocompleteWidgets d4]))))) q)
          = map_option g (props_at (fst (state_of filled)) q)"
      by (auto simp: Let_def props_at_each_inv g split: completion.splits prod.splits)
    then show ?thesis using res fl by (simp add: d1_def)
  qed
qed

lemma match1_hide_elem [simp]: "match1 (hide_elem pr) s = match1 pr s"
  by (cases s) (simp_all add: hide_elem_def attr_def hasClass_def class_list_def getClass_def
      type_keyword_def)

lemma matches_hide_elem [simp]: "matches sel (hide_elem pr) = matches sel pr"
  by (induction sel) simp_all

lemma kids_length_update_at:
  "map_option (\<lambda>n. length (kids n)) (node_at (update_at p f d) q)
     = map_option (\<lambda>n. length (kids n)) (node_at d q)"
  by (simp add: node_at_update_at option.map_comp comp_def)

lemma kids_length_each:
  "map_option (\<lambda>n. length (kids n)) (node_at (each d S f) q)
     = map_option (\<lambda>n. length (kids n)) (node_at d q)"
  by (induction S) (simp_all add: each_def kids_length_update_at)

lemma node_at_elem: "props_at d p = Some pr \<Longrightarrow> \<exists>ks. node_at d p = Some (Elem pr ks)"
  by (auto simp: props_at_def split: option.splits node.splits)

lemma props_at_append: "props_at d (p @ q) = (case node_at d p of None \<Rightarrow> None | Some n \<Rightarrow> props_at n q)"
  by (simp add: props_at_def node_at_append split: option.splits)

lemma attr_of_single: "attr_of d [p] a = (case props_at d p of Some pr \<Rightarrow> attr pr a | None \<Rightarrow> None)"
  by (simp add: attr_of_def)

lemma attr_of_cong:
  "(\<And>q. map_option (\<lambda>pr. attr pr a) (props_at d' q) = map_option (\<lambda>pr. attr pr a) (props_at d q)) \<Longrightarrow>
   (\<And>q. props_at d' q = None \<longleftrightarrow> props_at d q = None) \<Longrightarrow>
   attr_of d' S a = attr_of d S a"
proof -
  assume a: "\<And>q. map_option (\<lambda>pr. attr pr a) (props_at d' q) = map_option (\<lambda>pr. attr pr a) (props_at d q)"
  show ?thesis
  proof (cases S)
    case Nil
    then show ?thesis by (simp add: attr_of_def)
  next
    case (Cons p ps)
    then show ?thesis using a[of p]
      by (auto simp: attr_of_def split: option.splits)
  qed
qed

lemma children_mem:
  "q \<in> set (children d S sel) \<longleftrightarrow>
     q \<in> set (elements d) \<and> q \<noteq> [] \<and> butlast q \<in> set S \<and> sel_at d sel q"
  by (auto simp: children_def)

lemma last_of_mem: "p \<in> set (last_of S) \<Longrightarrow> p \<in> set S"
  by (auto simp: last_of_def split: if_splits)

lemma addEmptyForm_appends:
  fixes d :: node and ft :: string and ctx :: path
  assumes tc: "tc = children d (getManagementFormContainer d [ctx])
                      [Tag ''input'', AttrEnds ''name'' ''TOTAL_FORMS'']"
    and mx: "to_number (attr_of d (children d (getManagementFormContainer d [ctx])
                  [Tag ''input'', AttrEnds ''name'' ''MAX_NUM_FORMS'']) ''value'') = Some m"
    and n: "to_number (attr_of d tc ''value'') = Some (Num n)"
    and tn: "attr_of d tc ''name'' = Some tname"
    and ti: "attr_of d tc ''id'' = Some tid"
    and fp: "getNewFormParent d [ctx] = [fp]"
    and ps: "selector_identifier ft"
    and bp: "children d (jq_id d ''empty_forms'') [AttrEq ''data-form-type'' ft] = [bp]"
    and ids: "\<forall>q \<in> set (find_in d [bp] [AttrContains ''name'' ''__prefix__'']).
                \<exists>pr. props_at d q = Some pr \<and> attr pr ''id'' \<noteq> None"
    and k: "k = length (kids (the (node_at d fp)))"
    and pn: "pn = slice tname 0 (indexOf tname ''TOTAL_FORMS'') @ nat_to_string n"
    and pi: "pi = slice tid 0 (indexOf tid ''TOTAL_FORMS'') @ nat_to_string n"
  shows "\<exists>d' log. addEmptyForm d ft ctx = Some (Normal (d', log))
      \<and> (\<forall>q. q \<in> set (elements d') \<longleftrightarrow>
               q \<in> set (elements d) \<or> (\<exists>r. q = fp @ k # r \<and> props_at d (bp @ r) \<noteq> None))
      \<and> (\<forall>r. props_at d (fp @ k # r) = None)
      \<and> (\<forall>r. map_option tag (props_at d' (fp @ k # r)) = map_option tag (props_at d (bp @ r)))
      \<and> (\<forall>t \<in> set tc. map_option (\<lambda>pr. attr pr ''value'') (props_at d' t)
                          = Some (Some (nat_to_string (n + 1))))
      \<and> (\<forall>r pr. r \<noteq> [] \<and> props_at d (bp @ r) = Some pr
                 \<and> matches [AttrContains ''name'' ''__prefix__''] pr \<longrightarrow>
             (\<exists>nv iv pr'. attr pr ''name'' = Some nv \<and> attr pr ''id'' = Some iv
                 \<and> props_at d' (fp @ k # r) = Some pr'
                 \<and> attrs pr' = attrs (set_attr ''id'' (new_attr pi iv)
                                        (set_attr ''name'' (new_attr pn nv) pr))))
      \<and> (\<forall>r pr. props_at d (bp @ r) = Some pr
                 \<and> (r = [] \<or> \<not> matches [AttrContains ''name'' ''__prefix__''] pr) \<longrightarrow>
             map_option attrs (props_at d' (fp @ k # r)) = Some (attrs pr))"
proof -
  let ?P = "[AttrContains ''name'' ''__prefix__'']"
  define d1 where "d1 = (if js_ge (js_succ (Num n)) m
                         then each d (parent d [ctx] [Tag ''label'']) hide_elem else d)"
  have d1g: "map_option g (props_at d1 q) = map_option g (props_at d q)"
    if "\<And>pr. g (hide_elem pr) = g pr" for g :: "props \<Rightarrow> 'a" and q
    using that by (simp add: d1_def props_at_each_inv)
  have d1N: "props_at d1 q = None \<longleftrightarrow> props_at d q = None" for q
    by (simp add: d1_def)
  have d1el: "elements d1 = elements d" by (simp add: d1_def)
  have d1sel: "sel_at d1 sel q = sel_at d sel q" for sel q
    by (simp add: d1_def sel_at_each)
  have d1len: "map_option (\<lambda>n. length (kids n)) (node_at d1 q)
                 = map_option (\<lambda>n. length (kids n)) (node_at d q)" for q
    by (simp add: d1_def kids_length_each)
  have fp1: "getNewFormParent d1 [ctx] = [fp]"
    using fp by (simp add: d1_def getNewFormParent_def each_queries)
  have bp1: "children d1 (jq_id d1 ''empty_forms'') [AttrEq ''data-form-type'' ft] = [bp]"
    using bp by (simp add: d1_def jq_id_def each_queries)
  \<comment> \<open>the blueprint and the parent\<close>
  have bpe: "bp \<in> set (elements d)"
    using children_mem[of bp d "jq_id d ''empty_forms''" "[AttrEq ''data-form-type'' ft]"] bp
    by simp
  then have "props_at d1 bp \<noteq> None" by (simp add: elements_mem d1N)
  then obtain bpr bks where clone: "node_at d1 bp = Some (Elem bpr bks)"
    using node_at_elem by blast
  have fpe: "fp \<in> set (elements d)"
  proof -
    have "fp \<in> set (getNewFormParent d [ctx])" using fp by simp
    then show ?thesis
      unfolding getNewFormParent_def by (auto dest!: last_of_mem simp: children_mem)
  qed
  have "props_at d1 fp \<noteq> None" using fpe by (simp add: elements_mem d1N)
  then obtain fpr fks where fpn: "node_at d1 fp = Some (Elem fpr fks)"
    using node_at_elem by blast
  have kf: "k = length fks"
  proof -
    have "node_at d fp \<noteq> None"
      using fpe by (auto simp: elements_mem props_at_def split: option.splits)
    then obtain n0 where "node_at d fp = Some n0" by auto
    then show ?thesis using d1len[of fp] fpn by (simp add: k)
  qed
  define clone where "clone = Elem bpr bks"
  define d2 where "d2 = update_kids_at fp (\<lambda>ks. ks @ [clone]) d1"
  have old: "props_at d2 q = Some pr" if "props_at d1 q = Some pr" for q pr
    using that by (simp add: d2_def props_at_append_kids_old)
  have cl: "props_at clone r = props_at d1 (bp @ r)" for r
    by (simp add: props_at_append clone clone_def)
  have new: "props_at d2 (fp @ k # r) = props_at d1 (bp @ r)" for r
    using props_at_append_kids_new[OF fpn, of 0 "[clone]" r] by (simp add: d2_def kf cl)
  have none1: "props_at d1 (fp @ k # r) = None" for r
    by (simp add: props_at_def node_at_append fpn kf)
  have el2: "q \<in> set (elements d2) \<longleftrightarrow>
        q \<in> set (elements d) \<or> (\<exists>r. q = fp @ k # r \<and> props_at d (bp @ r) \<noteq> None)" for q
  proof -
    have "r \<in> set (elem_paths clone) \<longleftrightarrow> props_at d (bp @ r) \<noteq> None" for r
      by (simp add: elem_paths_mem cl d1N del: not_None_eq)
    then show ?thesis
      using elements_append_kids[OF fpn, of q "[clone]"]
      by (auto simp: d2_def kf d1el simp del: not_None_eq)
  qed
  have res0: "addEmptyForm d ft ctx =
      Some (case (case getNewFormParent d1 [ctx] of
                    [] \<Rightarrow>
                      (case fill_new_form (elem ''#fragment'' []
                                (map (\<lambda>p. the (node_at d1 p))
                                   (children d1 (jq_id d1 ''empty_forms'') [AttrEq ''data-form-type'' ft])))
                              (map (\<lambda>i. [i]) [0 ..< length (map (\<lambda>p. the (node_at d1 p))
                                   (children d1 (jq_id d1 ''empty_forms'') [AttrEq ''data-form-type'' ft]))])
                              d1 tc (Num n) of
                         Normal (e, log) \<Rightarrow> Normal (d1, log)
                       | Throw err (e, log) \<Rightarrow> Throw err (d1, log)
                       | Unmodelled (e, log) \<Rightarrow> Unmodelled (d1, log))
                  | fp # _ \<Rightarrow>
                      fill_new_form (append_to d1 [fp] (map (\<lambda>p. the (node_at d1 p))
                                   (children d1 (jq_id d1 ''empty_forms'') [AttrEq ''data-form-type'' ft])))
                         (map (\<lambda>i. fp @ [i]) [length (kids (the (node_at d1 fp))) ..<
                             length (kids (the (node_at d1 fp))) + length (map (\<lambda>p. the (node_at d1 p))
                                   (children d1 (jq_id d1 ''empty_forms'') [AttrEq ''data-form-type'' ft]))])
                         (append_to d1 [fp] (map (\<lambda>p. the (node_at d1 p))
                                   (children d1 (jq_id d1 ''empty_forms'') [AttrEq ''data-form-type'' ft])))
                         tc (Num n)) of
              Throw err st \<Rightarrow> Throw err st
            | Unmodelled st \<Rightarrow> Unmodelled st
            | Normal (d3, log) \<Rightarrow>
                Normal (each d3 tc (set_attr ''value'' (number_to_string (js_succ (Num n)))),
                        log @ [initAutocompleteWidgets
                                 (each d3 tc (set_attr ''value'' (number_to_string (js_succ (Num n)))))]))"
    using mx n data_form_type_selector_identifier[OF ps]
    unfolding addEmptyForm_def Let_def d1_def tc by simp
  have res: "addEmptyForm d ft ctx =
      Some (case fill_new_form d2 [fp @ [k]] d2 tc (Num n) of
              Throw err st \<Rightarrow> Throw err st
            | Unmodelled st \<Rightarrow> Unmodelled st
            | Normal (d3, log) \<Rightarrow>
                Normal (each d3 tc (set_attr ''value'' (number_to_string (js_succ (Num n)))),
                        log @ [initAutocompleteWidgets
                                 (each d3 tc (set_attr ''value'' (number_to_string (js_succ (Num n)))))]))"
    unfolding res0 by (simp add: fp1 bp1 clone fpn append_to_single d2_def clone_def kf)
  \<comment> \<open>the counter control\<close>
  obtain t0 trest where tc0: "tc = t0 # trest" using tn by (cases tc) (auto simp: attr_of_def)
  obtain tpr where tpr: "props_at d t0 = Some tpr" "attr tpr ''name'' = Some tname"
      "attr tpr ''id'' = Some tid"
    using tn ti by (auto simp: tc0 attr_of_def split: option.splits)
  have tcel: "t \<in> set tc \<Longrightarrow> t \<in> set (elements d)" for t
    by (simp add: tc children_mem)
  have a1: "map_option attrs (props_at d1 q) = map_option attrs (props_at d q)" for q
    by (rule d1g) (simp add: hide_elem_def)
  have a2: "map_option attrs (props_at d2 q) = map_option attrs (props_at d q)"
    if "props_at d q \<noteq> None" for q
  proof -
    have "props_at d1 q \<noteq> None" using that by (simp add: d1N del: not_None_eq)
    then obtain pr where "props_at d1 q = Some pr" by auto
    then show ?thesis using old a1[of q] by simp
  qed
  have "attr_of d2 tc a = attr_of d tc a" for a
    using a2[of t0] tpr(1) by (auto simp: tc0 attr_of_def attr_def split: option.splits)
  then have gen: "generateNewFormPrefix d2 tc ''name'' (Num n) = Inr pn"
      "generateNewFormPrefix d2 tc ''id'' (Num n) = Inr pi"
    by (simp_all add: generateNewFormPrefix_def tn ti pn pi)
  define NC where "NC = find_in d2 [fp @ [k]] ?P"
  have fill: "fill_new_form d2 [fp @ [k]] d2 tc (Num n) = each_control pn pi NC (d2, [])"
    by (simp add: fill_new_form_def Let_def gen NC_def)
  have selnew: "sel_at d2 sel (fp @ k # r) = sel_at d sel (bp @ r)" for sel r
    using d1sel[of sel "bp @ r"] by (simp add: sel_at_def new)
  have ncmem: "q \<in> set NC \<longleftrightarrow> (\<exists>r. r \<noteq> [] \<and> q = fp @ k # r \<and> sel_at d ?P (bp @ r))" for q
  proof
    assume "q \<in> set NC"
    then have q: "q \<in> set (elements d2)" "strict_prefix (fp @ [k]) q" "sel_at d2 ?P q"
      by (simp_all add: NC_def find_in_def)
    from q(2) obtain r where r: "q = (fp @ [k]) @ r" "r \<noteq> []"
      by (auto simp: strict_prefix_def prefix_def)
    then show "\<exists>r. r \<noteq> [] \<and> q = fp @ k # r \<and> sel_at d ?P (bp @ r)"
      using q(3) selnew[of ?P r] by auto
  next
    assume "\<exists>r. r \<noteq> [] \<and> q = fp @ k # r \<and> sel_at d ?P (bp @ r)"
    then obtain r where r: "r \<noteq> []" "q = fp @ k # r" "sel_at d ?P (bp @ r)" by blast
    have "props_at d (bp @ r) \<noteq> None" using r(3) by (auto simp: sel_at_def split: option.splits)
    then have "q \<in> set (elements d2)" using r(2) el2[of q] by blast
    moreover have "strict_prefix (fp @ [k]) q" using r by (simp add: strict_prefix_def)
    ultimately show "q \<in> set NC" using r selnew[of ?P r] by (simp add: NC_def find_in_def)
  qed
  have ncprops: "\<forall>q \<in> set NC. \<exists>pr nv iv. props_at d2 q = Some pr \<and> attr pr ''name'' = Some nv
            \<and> attr pr ''id'' = Some iv"
  proof
    fix q assume "q \<in> set NC"
    then obtain r where r: "r \<noteq> []" "q = fp @ k # r" "sel_at d ?P (bp @ r)"
      using ncmem by blast
    then obtain pr where pr: "props_at d (bp @ r) = Some pr" "matches ?P pr"
      by (auto simp: sel_at_def split: option.splits)
    have "bp @ r \<in> set (find_in d [bp] ?P)"
      using r sel_at_elements[OF r(3)] by (simp add: find_in_def strict_prefix_def)
    then have idp: "attr pr ''id'' \<noteq> None" using ids pr(1) by auto
    obtain pr1 where pr1: "props_at d1 (bp @ r) = Some pr1" "attrs pr1 = attrs pr"
      using a1[of "bp @ r"] pr(1) by auto
    have "attr pr1 ''name'' \<noteq> None" "attr pr1 ''id'' \<noteq> None"
      using pr(2) idp pr1(2) by (auto simp: attr_def split: option.splits)
    then show "\<exists>pr nv iv. props_at d2 q = Some pr \<and> attr pr ''name'' = Some nv
            \<and> attr pr ''id'' = Some iv"
      using pr1(1) by (auto simp: r(2) new)
  qed
  have "distinct NC" by (simp add: NC_def)
  from each_control_normal[OF this ncprops, of pn pi "[]"]
  obtain e3 log3 where ec: "each_control pn pi NC (d2, []) = Normal (e3, log3)"
    and ren: "\<forall>p \<in> set NC. \<exists>pr nv iv. props_at d2 p = Some pr \<and> attr pr ''name'' = Some nv
            \<and> attr pr ''id'' = Some iv
            \<and> props_at e3 p = Some (set_attr ''id'' (new_attr pi iv)
                                       (set_attr ''name'' (new_attr pn nv) pr))"
    by blast
  have e3el: "elements e3 = elements d2"
    using each_control_frame[of "\<lambda>_. ()" pn pi NC "(d2, [])"] ec by simp
  have e3other: "props_at e3 q = props_at d2 q" if "q \<notin> set NC" for q
    using each_control_other[OF that, of pn pi "(d2, [])"] ec by simp
  have e3tag: "map_option tag (props_at e3 q) = map_option tag (props_at d2 q)" for q
    using each_control_frame[of tag pn pi NC "(d2, [])" q] ec by (simp add: set_attr_def)
  define d4 where "d4 = each e3 tc (set_attr ''value'' (nat_to_string (n + 1)))"
  have final: "addEmptyForm d ft ctx = Some (Normal (d4, log3 @ [initAutocompleteWidgets d4]))"
    by (simp add: res fill ec d4_def)
  have noned: "props_at d (fp @ k # r) = None" for r
    using none1[of r] by (simp add: d1N)
  have tcnew: "fp @ k # r \<notin> set tc" for r
    using tcel[of "fp @ k # r"] noned[of r] by (auto simp: elements_mem)
  have d4new: "props_at d4 (fp @ k # r) = props_at e3 (fp @ k # r)" for r
    by (simp add: d4_def props_at_each_notin tcnew)
  have c1: "q \<in> set (elements d4) \<longleftrightarrow>
               q \<in> set (elements d) \<or> (\<exists>r. q = fp @ k # r \<and> props_at d (bp @ r) \<noteq> None)" for q
    using el2[of q] by (simp add: d4_def e3el)
  have c3: "map_option tag (props_at d4 (fp @ k # r)) = map_option tag (props_at d (bp @ r))" for r
  proof -
    have "map_option tag (props_at d1 (bp @ r)) = map_option tag (props_at d (bp @ r))"
      by (rule d1g) (simp add: hide_elem_def)
    then show ?thesis by (simp add: d4new e3tag new)
  qed
  have c4: "map_option (\<lambda>pr. attr pr ''value'') (props_at d4 t)
              = Some (Some (nat_to_string (n + 1)))" if "t \<in> set tc" for t
  proof -
    have "t \<notin> set NC" using that tcnew by (auto simp: ncmem)
    moreover have "props_at d t \<noteq> None" using tcel[OF that] by (simp add: elements_mem)
    then have "props_at d1 t \<noteq> None" by (simp add: d1N del: not_None_eq)
    then obtain pr where "props_at d2 t = Some pr" using old by blast
    ultimately have "props_at e3 t = Some pr" by (simp add: e3other)
    moreover have "distinct tc" by (simp add: tc)
    ultimately show ?thesis using that by (simp add: d4_def props_at_each attr_set_attr)
  qed
  have c5: "\<exists>nv iv pr'. attr pr ''name'' = Some nv \<and> attr pr ''id'' = Some iv
                 \<and> props_at d4 (fp @ k # r) = Some pr'
                 \<and> attrs pr' = attrs (set_attr ''id'' (new_attr pi iv)
                                        (set_attr ''name'' (new_attr pn nv) pr))"
    if "r \<noteq> []" "props_at d (bp @ r) = Some pr" "matches ?P pr" for r pr
  proof -
    have "sel_at d ?P (bp @ r)" using that by (simp add: sel_at_def)
    then have "fp @ k # r \<in> set NC" using that(1) by (auto simp: ncmem)
    from ren[rule_format, OF this] obtain pr2 nv iv where p2: "props_at d2 (fp @ k # r) = Some pr2"
        "attr pr2 ''name'' = Some nv" "attr pr2 ''id'' = Some iv"
        "props_at e3 (fp @ k # r) = Some (set_attr ''id'' (new_attr pi iv)
                                       (set_attr ''name'' (new_attr pn nv) pr2))"
      by blast
    have "attrs pr2 = attrs pr" using p2(1) a1[of "bp @ r"] that(2) by (auto simp: new)
    then show ?thesis using p2 by (auto simp: d4new attr_def set_attr_def)
  qed
  have c6: "map_option attrs (props_at d4 (fp @ k # r)) = Some (attrs pr)"
    if "props_at d (bp @ r) = Some pr" "r = [] \<or> \<not> matches ?P pr" for r pr
  proof -
    have "fp @ k # r \<notin> set NC" using that by (auto simp: ncmem sel_at_def)
    then show ?thesis using a1[of "bp @ r"] that(1) by (simp add: d4new e3other new)
  qed
  show ?thesis
    apply (rule exI[of _ d4], rule exI[of _ "log3 @ [initAutocompleteWidgets d4]"])
    apply (intro conjI allI ballI impI)
    subgoal by (rule final)
    subgoal for q by (rule c1)
    subgoal for r by (rule noned)
    subgoal for r by (rule c3)
    subgoal for t by (rule c4)
    subgoal for r pr by (elim conjE) (rule c5)
    subgoal for r pr by (elim conjE) (rule c6)
    done
qed

subsection \<open>First and last occurrence\<close>

lemma occurs_at_0: "occurs_at s pat 0 \<longleftrightarrow> prefix pat s"
  by (auto simp: occurs_at_def prefix_def) (metis append_take_drop_id)

lemma occurs_at_Cons: "occurs_at (c # cs) pat (Suc i) \<longleftrightarrow> occurs_at cs pat i"
  by (simp add: occurs_at_def)

lemma indexOf_first:
  "prefix u s \<Longrightarrow> occurs_at s pat (length u) \<Longrightarrow> (\<forall>i < length u. \<not> occurs_at s pat i) \<Longrightarrow>
   indexOf s pat = int (length u)"
proof (induction u arbitrary: s)
  case Nil
  then show ?case by (cases s) (auto simp: occurs_at_0)
next
  case (Cons x u)
  then obtain s' where s: "s = x # s'" "prefix u s'" by (auto simp: prefix_def)
  have "\<not> prefix pat s" using Cons.prems(3) by (auto simp: occurs_at_0[symmetric])
  moreover have "indexOf s' pat = int (length u)"
  proof (rule Cons.IH[OF s(2)])
    show "occurs_at s' pat (length u)" using Cons.prems(2) s by (simp add: occurs_at_Cons)
    show "\<forall>i < length u. \<not> occurs_at s' pat i"
    proof (intro allI impI)
      fix i assume "i < length u"
      then have "\<not> occurs_at s pat (Suc i)" using Cons.prems(3) by auto
      then show "\<not> occurs_at s' pat i" using s by (simp add: occurs_at_Cons)
    qed
  qed
  ultimately show ?case using s by (simp add: Let_def)
qed

lemma lastIndexOf_none:
  "(\<forall>i \<le> length s. \<not> occurs_at s pat i) \<Longrightarrow> lastIndexOf s pat = -1"
proof (induction s)
  case Nil
  then show ?case by (auto simp: occurs_at_def)
next
  case (Cons c cs)
  have "\<forall>i \<le> length cs. \<not> occurs_at cs pat i"
  proof (intro allI impI)
    fix i assume "i \<le> length cs"
    then have "\<not> occurs_at (c # cs) pat (Suc i)" using Cons.prems by auto
    then show "\<not> occurs_at cs pat i" by (simp add: occurs_at_Cons)
  qed
  then have "lastIndexOf cs pat = -1" by (rule Cons.IH)
  moreover have "\<not> prefix pat (c # cs)" using Cons.prems by (auto simp: occurs_at_0[symmetric])
  ultimately show ?case by simp
qed

lemma lastIndexOf_last:
  "s = a @ pat @ b \<Longrightarrow> (\<forall>i. length a < i \<and> i \<le> length s \<longrightarrow> \<not> occurs_at s pat i) \<Longrightarrow>
   lastIndexOf s pat = int (length a)"
proof (induction a arbitrary: s)
  case Nil
  show ?case
  proof (cases s)
    case Nil
    then show ?thesis using Nil.prems by simp
  next
    case (Cons c cs)
    have "\<forall>i \<le> length cs. \<not> occurs_at cs pat i"
    proof (intro allI impI)
      fix i assume "i \<le> length cs"
      then have "\<not> occurs_at s pat (Suc i)" using Nil.prems(2) Cons by auto
      then show "\<not> occurs_at cs pat i" using Cons by (simp add: occurs_at_Cons)
    qed
    then have "lastIndexOf cs pat = -1" by (rule lastIndexOf_none)
    moreover have "prefix pat (c # cs)" using Nil.prems(1) Cons by simp
    ultimately show ?thesis using Cons by simp
  qed
next
  case (Cons x a)
  have "lastIndexOf (a @ pat @ b) pat = int (length a)"
  proof (rule Cons.IH[OF refl], intro allI impI)
    fix i assume "length a < i \<and> i \<le> length (a @ pat @ b)"
    then have "\<not> occurs_at s pat (Suc i)" using Cons.prems by auto
    then show "\<not> occurs_at (a @ pat @ b) pat i" using Cons.prems(1) by (simp add: occurs_at_Cons)
  qed
  then show ?case using Cons.prems(1) by (simp add: Let_def)
qed

lemma slice_before_first:
  "before_first s pat u \<Longrightarrow> slice s 0 (indexOf s pat) = u"
proof -
  assume b: "before_first s pat u"
  then have "indexOf s pat = int (length u)"
    by (intro indexOf_first) (auto simp: before_first_def)
  moreover have "take (length u) s = u" "length u \<le> length s"
    using b by (auto simp: before_first_def prefix_def)
  ultimately show ?thesis by (simp add: slice_def slice_pos_def min_def)
qed

lemma new_attr_around_last:
  "around_last s ''__prefix__'' a b \<Longrightarrow> new_attr pfx s = pfx @ b"
proof -
  assume l: "around_last s ''__prefix__'' a b"
  then have s: "s = a @ ''__prefix__'' @ b"
    and all: "\<forall>i \<in> set [Suc (length a) ..< Suc (length s)]. \<not> occurs_at s ''__prefix__'' i"
    unfolding around_last_def by blast+
  have no: "\<not> occurs_at s ''__prefix__'' i" if "Suc (length a) \<le> i" "i < Suc (length s)" for i
    using all that by (simp del: upt_Suc)
  have "lastIndexOf s ''__prefix__'' = int (length a)"
  proof (rule lastIndexOf_last[OF s], intro allI impI)
    fix i assume "length a < i \<and> i \<le> length s"
    then show "\<not> occurs_at s ''__prefix__'' i" using no[of i] by auto
  qed
  then show ?thesis using s
    by (simp add: new_attr_def slice_from_def slice_pos_def nat_add_distrib)
qed

lemma indexOf_occurs: "occurs_at s pat i \<Longrightarrow> 0 \<le> indexOf s pat"
proof (induction s arbitrary: i)
  case Nil
  then show ?case by (auto simp: occurs_at_def)
next
  case (Cons c cs)
  show ?case
  proof (cases "prefix pat (c # cs)")
    case True
    then show ?thesis by simp
  next
    case False
    then have "\<not> occurs_at (c # cs) pat 0" by (simp add: occurs_at_0)
    then have "i \<noteq> 0" using Cons.prems by (cases i) auto
    then obtain j where "i = Suc j" by (cases i) auto
    then have "0 \<le> indexOf cs pat" using Cons.prems Cons.IH[of j] by (simp add: occurs_at_Cons)
    then show ?thesis using False by (simp add: Let_def)
  qed
qed

lemma around_last_contains:
  "around_last s pat a b \<Longrightarrow> 0 \<le> indexOf s pat"
  by (rule indexOf_occurs[of s pat "length a"]) (simp add: around_last_def occurs_at_def)

subsection \<open>Inserting and removing children\<close>

lemma props_at_update_kids_at:
  "\<not> strict_prefix p q \<Longrightarrow> props_at (update_kids_at p g d) q = props_at d q"
proof (induction p arbitrary: d q)
  case Nil
  then have "q = []" by (cases q) auto
  then show ?case by (cases d) (simp_all add: props_at_def)
next
  case (Cons i p)
  show ?case
  proof (cases d)
    case (Text s)
    then show ?thesis by simp
  next
    case (Elem pr ks)
    show ?thesis
    proof (cases q)
      case Nil
      then show ?thesis using Elem by (simp add: props_at_def)
    next
      case (Cons j q')
      show ?thesis
      proof (cases "j = i \<and> i < length ks")
        case True
        then have "\<not> strict_prefix p q'" using Cons.prems Cons by (auto simp: strict_prefix_def)
        from Cons.IH[OF this, of "ks ! i"] show ?thesis using Elem Cons True
          by (simp add: props_at_def)
      next
        case False
        then show ?thesis using Elem Cons by (auto simp: props_at_def)
      qed
    qed
  qed
qed

lemma node_at_update_kids_at_other:
  "\<not> prefix p q \<Longrightarrow> \<not> prefix q p \<Longrightarrow> node_at (update_kids_at p g d) q = node_at d q"
proof (induction p arbitrary: d q)
  case Nil
  then show ?case by simp
next
  case (Cons i p)
  show ?case
  proof (cases d)
    case (Text s)
    then show ?thesis by simp
  next
    case (Elem pr ks)
    show ?thesis
    proof (cases q)
      case Nil
      then show ?thesis using Cons.prems by simp
    next
      case (Cons j q')
      show ?thesis
      proof (cases "j = i \<and> i < length ks")
        case True
        then have "\<not> prefix p q'" "\<not> prefix q' p" using Cons.prems Cons by auto
        from Cons.IH[OF this, of "ks ! i"] show ?thesis using Elem Cons True by simp
      next
        case False
        then show ?thesis using Elem Cons by auto
      qed
    qed
  qed
qed

lemma node_at_update_kids_at_below:
  "node_at d p = Some (Elem pr ks) \<Longrightarrow>
   node_at (update_kids_at p g d) (p @ rest) = node_at (Elem pr (g ks)) rest"
  by (simp add: node_at_append node_at_update_kids_at_self)

section \<open>Adding a form appends one row and steps the counter\<close>



section \<open>How the controls of the new row are renamed\<close>

text \<open>
  C2, as the code has it. Under the markup contract of C1 (the form type an
  identifier among it), with \<open>uname\<close> what precedes
  the first \<open>TOTAL_FORMS\<close> in the name of the counter control and \<open>uid\<close> the same
  for its id: every control of the new row (a descendant of it) whose name contains
  \<open>__prefix__\<close> gets the name \<open>uname\<close>, the index \<open>n\<close>, and what followed the last
  occurrence of the placeholder in its name; when its id contains the placeholder too,
  the id becomes \<open>uid\<close>, the index, and what followed the last occurrence in the id.
  The controls are chosen by their name alone: an element whose name does not contain
  the placeholder keeps all its attributes, also when its id contains the placeholder.
\<close>

theorem addEmptyForm_renames_by_name:
  assumes "to_number (attr_of d (children d (getManagementFormContainer d [ctx])
                  [Tag ''input'', AttrEnds ''name'' ''MAX_NUM_FORMS'']) ''value'') = Some maxRows"
    and "to_number (attr_of d (children d (getManagementFormContainer d [ctx])
                  [Tag ''input'', AttrEnds ''name'' ''TOTAL_FORMS'']) ''value'') = Some (Num n)"
    and "attr_of d (children d (getManagementFormContainer d [ctx])
                  [Tag ''input'', AttrEnds ''name'' ''TOTAL_FORMS'']) ''name'' = Some tname"
    and "attr_of d (children d (getManagementFormContainer d [ctx])
                  [Tag ''input'', AttrEnds ''name'' ''TOTAL_FORMS'']) ''id'' = Some tid"
    and "getNewFormParent d [ctx] = [fp]"
    and "selector_identifier formType"
    and "children d (jq_id d ''empty_forms'') [AttrEq ''data-form-type'' formType] = [bp]"
    and "\<forall>q \<in> set (find_in d [bp] [AttrContains ''name'' ''__prefix__'']).
           \<exists>pr. props_at d q = Some pr \<and> attr pr ''id'' \<noteq> None"
    and "k = length (kids (the (node_at d fp)))"
    and "before_first tname ''TOTAL_FORMS'' uname"
    and "before_first tid ''TOTAL_FORMS'' uid"
  shows "\<exists>d' log. addEmptyForm d formType ctx = Some (Normal (d', log))
      \<and> (\<forall>r pr nv a b. r \<noteq> [] \<and> props_at d (bp @ r) = Some pr \<and> attr pr ''name'' = Some nv
                 \<and> around_last nv ''__prefix__'' a b \<longrightarrow>
             map_option (\<lambda>pr'. attr pr' ''name'') (props_at d' (fp @ k # r))
               = Some (Some (uname @ nat_to_string n @ b)))
      \<and> (\<forall>r pr nv a b iv a' b'. r \<noteq> [] \<and> props_at d (bp @ r) = Some pr \<and> attr pr ''name'' = Some nv
                 \<and> around_last nv ''__prefix__'' a b
                 \<and> attr pr ''id'' = Some iv \<and> around_last iv ''__prefix__'' a' b' \<longrightarrow>
             map_option (\<lambda>pr'. attr pr' ''id'') (props_at d' (fp @ k # r))
               = Some (Some (uid @ nat_to_string n @ b')))
      \<and> (\<forall>r pr. props_at d (bp @ r) = Some pr
                 \<and> (r = [] \<or> \<not> matches [AttrContains ''name'' ''__prefix__''] pr) \<longrightarrow>
             map_option attrs (props_at d' (fp @ k # r)) = Some (attrs pr))"
proof -
  have pn: "slice tname 0 (indexOf tname ''TOTAL_FORMS'') = uname"
    and pi: "slice tid 0 (indexOf tid ''TOTAL_FORMS'') = uid"
    using assms(10,11) by (simp_all add: slice_before_first)
  from addEmptyForm_appends[OF refl assms(1-8) assms(9) refl refl]
  obtain d' log where r: "addEmptyForm d formType ctx = Some (Normal (d', log))"
    and ren: "\<forall>r pr. r \<noteq> [] \<and> props_at d (bp @ r) = Some pr
                 \<and> matches [AttrContains ''name'' ''__prefix__''] pr \<longrightarrow>
             (\<exists>nv iv pr'. attr pr ''name'' = Some nv \<and> attr pr ''id'' = Some iv
                 \<and> props_at d' (fp @ k # r) = Some pr'
                 \<and> attrs pr' = attrs (set_attr ''id''
                       (new_attr (slice tid 0 (indexOf tid ''TOTAL_FORMS'') @ nat_to_string n) iv)
                       (set_attr ''name''
                          (new_attr (slice tname 0 (indexOf tname ''TOTAL_FORMS'') @ nat_to_string n) nv)
                          pr)))"
    and keep: "\<forall>r pr. props_at d (bp @ r) = Some pr
                 \<and> (r = [] \<or> \<not> matches [AttrContains ''name'' ''__prefix__''] pr) \<longrightarrow>
             map_option attrs (props_at d' (fp @ k # r)) = Some (attrs pr)"
    by (elim exE conjE)
  have both: "\<exists>iv pr'. attr pr ''id'' = Some iv \<and> props_at d' (fp @ k # r) = Some pr'
        \<and> attr pr' ''name'' = Some (uname @ nat_to_string n @ b)
        \<and> attr pr' ''id'' = Some (new_attr (uid @ nat_to_string n) iv)"
    if "r \<noteq> []" "props_at d (bp @ r) = Some pr" "attr pr ''name'' = Some nv"
       "around_last nv ''__prefix__'' a b" for r pr nv a b
  proof -
    have "matches [AttrContains ''name'' ''__prefix__''] pr"
      using that(3) around_last_contains[OF that(4)] by simp
    with ren that(1,2) obtain nv' iv pr' where p: "attr pr ''name'' = Some nv'"
        "attr pr ''id'' = Some iv" "props_at d' (fp @ k # r) = Some pr'"
        "attrs pr' = attrs (set_attr ''id'' (new_attr (uid @ nat_to_string n) iv)
                       (set_attr ''name'' (new_attr (uname @ nat_to_string n) nv') pr))"
      unfolding pn pi by blast
    have "attr pr' x = attr (set_attr ''id'' (new_attr (uid @ nat_to_string n) iv)
                       (set_attr ''name'' (new_attr (uname @ nat_to_string n) nv') pr)) x" for x
      using p(4) by (simp add: attr_def)
    then show ?thesis
      using p that(3) new_attr_around_last[OF that(4), of "uname @ nat_to_string n"]
      by (simp add: attr_set_attr)
  qed
  have c1: "map_option (\<lambda>pr'. attr pr' ''name'') (props_at d' (fp @ k # r))
               = Some (Some (uname @ nat_to_string n @ b))"
    if "r \<noteq> [] \<and> props_at d (bp @ r) = Some pr \<and> attr pr ''name'' = Some nv
                 \<and> around_last nv ''__prefix__'' a b" for r pr nv a b
    using both[of r pr nv a b] that by auto
  have c2: "map_option (\<lambda>pr'. attr pr' ''id'') (props_at d' (fp @ k # r))
               = Some (Some (uid @ nat_to_string n @ b'))"
    if "r \<noteq> [] \<and> props_at d (bp @ r) = Some pr \<and> attr pr ''name'' = Some nv
                 \<and> around_last nv ''__prefix__'' a b
                 \<and> attr pr ''id'' = Some iv \<and> around_last iv ''__prefix__'' a' b'"
    for r pr nv a b iv a' b'
  proof -
    from that have t: "r \<noteq> []" "props_at d (bp @ r) = Some pr" "attr pr ''name'' = Some nv"
      "around_last nv ''__prefix__'' a b" "attr pr ''id'' = Some iv"
      "around_last iv ''__prefix__'' a' b'" by auto
    from both[OF t(1-4)] t(5) new_attr_around_last[OF t(6), of "uid @ nat_to_string n"]
    show ?thesis by auto
  qed
  show ?thesis
    apply (rule exI[of _ d'], rule exI[of _ log])
    apply (intro conjI allI impI)
    subgoal by (rule r)
    subgoal for r pr nv a b by (rule c1)
    subgoal for r pr nv a b iv a' b' by (rule c2)
    subgoal for r pr using keep by blast
    done
qed

theorem addEmptyForm_renames_by_name_witness:
  "selector_identifier ''name''
   \<and> before_first ''names-TOTAL_FORMS'' ''TOTAL_FORMS'' ''names-''
   \<and> before_first ''id_names-TOTAL_FORMS'' ''TOTAL_FORMS'' ''id_names-''
   \<and> around_last ''names-__prefix__-display'' ''__prefix__'' ''names-'' ''-display''
   \<and> around_last ''id_names-__prefix__-display'' ''__prefix__'' ''id_names-'' ''-display''
   \<and> map_option (\<lambda>pr. attr pr ''name'') (props_at (formset_doc ''4'' name_blueprint) [0, 1, 0, 1])
       = Some (Some ''names-__prefix__-display'')
   \<and> (\<exists>d' log. addEmptyForm (formset_doc ''4'' name_blueprint) ''name'' [0, 0, 2, 0]
                   = Some (Normal (d', log))
         \<and> map_option (\<lambda>pr. attr pr ''name'') (props_at d' [0, 0, 1, 2, 1])
             = Some (Some ''names-2-display'')
         \<and> map_option (\<lambda>pr. attr pr ''id'') (props_at d' [0, 0, 1, 2, 1])
             = Some (Some ''id_names-2-display'')
         \<and> map_option attrs (props_at d' [0, 0, 1, 2, 0])
             = Some [(''for'', ''id_names-__prefix__-display'')])"
proof -
  let ?d = "formset_doc ''4'' name_blueprint"
  have tc: "children ?d (getManagementFormContainer ?d [[0, 0, 2, 0]])
        [Tag ''input'', AttrEnds ''name'' ''TOTAL_FORMS''] = [[0, 0, 0, 0]]"
    by code_simp
  have mc: "children ?d (getManagementFormContainer ?d [[0, 0, 2, 0]])
        [Tag ''input'', AttrEnds ''name'' ''MAX_NUM_FORMS''] = [[0, 0, 0, 1]]"
    by code_simp
  have m: "to_number (attr_of ?d [[0, 0, 0, 1]] ''value'') = Some (Num 4)" by code_simp
  have n: "to_number (attr_of ?d [[0, 0, 0, 0]] ''value'') = Some (Num 2)" by code_simp
  have tn: "attr_of ?d [[0, 0, 0, 0]] ''name'' = Some ''names-TOTAL_FORMS''" by code_simp
  have ti: "attr_of ?d [[0, 0, 0, 0]] ''id'' = Some ''id_names-TOTAL_FORMS''" by code_simp
  have fp: "getNewFormParent ?d [[0, 0, 2, 0]] = [[0, 0, 1]]" by code_simp
  have si: "selector_identifier ''name''" by code_simp
  have bp: "children ?d (jq_id ?d ''empty_forms'') [AttrEq ''data-form-type'' ''name''] = [[0, 1, 0]]"
    by code_simp
  have f: "find_in ?d [[0, 1, 0]] [AttrContains ''name'' ''__prefix__''] = [[0, 1, 0, 1], [0, 1, 0, 2]]"
    by code_simp
  have i: "map_option (\<lambda>pr. attr pr ''id'') (props_at ?d [0, 1, 0, 1]) = Some (Some ''id_names-__prefix__-display'')"
    "map_option (\<lambda>pr. attr pr ''id'') (props_at ?d [0, 1, 0, 2]) = Some (Some ''id_names-__prefix__-note'')"
    by code_simp+
  have ids: "\<forall>q \<in> set (find_in ?d [[0, 1, 0]] [AttrContains ''name'' ''__prefix__'']).
           \<exists>pr. props_at ?d q = Some pr \<and> attr pr ''id'' \<noteq> None"
    unfolding f using i by auto
  have k: "length (kids (the (node_at ?d [0, 0, 1]))) = 2" by code_simp
  have bf: "before_first ''names-TOTAL_FORMS'' ''TOTAL_FORMS'' ''names-''"
    "before_first ''id_names-TOTAL_FORMS'' ''TOTAL_FORMS'' ''id_names-''"
    by code_simp+
  have al: "around_last ''names-__prefix__-display'' ''__prefix__'' ''names-'' ''-display''"
    "around_last ''id_names-__prefix__-display'' ''__prefix__'' ''id_names-'' ''-display''"
    by code_simp+
  have s: "nat_to_string 2 = ''2''" by code_simp
  define pr where "pr = \<lparr>tag = ''input'',
      attrs = [(''type'', ''text''), (''name'', ''names-__prefix__-display''),
               (''id'', ''id_names-__prefix__-display'')],
      checked = False, hidden = False, dirty_value = None\<rparr>"
  have pr: "props_at ?d ([0, 1, 0] @ [1]) = Some pr"
    "attr pr ''name'' = Some ''names-__prefix__-display''"
    "attr pr ''id'' = Some ''id_names-__prefix__-display''"
    unfolding pr_def by code_simp+
  define lb where "lb = \<lparr>tag = ''label'', attrs = [(''for'', ''id_names-__prefix__-display'')],
      checked = False, hidden = False, dirty_value = None\<rparr>"
  have lb: "props_at ?d ([0, 1, 0] @ [0]) = Some lb"
    "\<not> matches [AttrContains ''name'' ''__prefix__''] lb"
    unfolding lb_def by code_simp+
  have nmp: "map_option (\<lambda>pr. attr pr ''name'') (props_at ?d [0, 1, 0, 1])
       = Some (Some ''names-__prefix__-display'')"
    by code_simp
  note th = addEmptyForm_renames_by_name[of ?d "[0, 0, 2, 0]" "Num 4" 2 "''names-TOTAL_FORMS''"
      "''id_names-TOTAL_FORMS''" "[0, 0, 1]" "''name''" "[0, 1, 0]" 2 "''names-''" "''id_names-''",
      unfolded tc mc, OF m n tn ti fp si bp ids k[symmetric] bf]
  then obtain d' log where r: "addEmptyForm ?d ''name'' [0, 0, 2, 0] = Some (Normal (d', log))"
    "\<forall>r pr nv a b. r \<noteq> [] \<and> props_at ?d ([0, 1, 0] @ r) = Some pr \<and> attr pr ''name'' = Some nv
                 \<and> around_last nv ''__prefix__'' a b \<longrightarrow>
             map_option (\<lambda>pr'. attr pr' ''name'') (props_at d' ([0, 0, 1] @ 2 # r))
               = Some (Some (''names-'' @ nat_to_string 2 @ b))"
    "\<forall>r pr nv a b iv a' b'. r \<noteq> [] \<and> props_at ?d ([0, 1, 0] @ r) = Some pr \<and> attr pr ''name'' = Some nv
                 \<and> around_last nv ''__prefix__'' a b
                 \<and> attr pr ''id'' = Some iv \<and> around_last iv ''__prefix__'' a' b' \<longrightarrow>
             map_option (\<lambda>pr'. attr pr' ''id'') (props_at d' ([0, 0, 1] @ 2 # r))
               = Some (Some (''id_names-'' @ nat_to_string 2 @ b'))"
    "\<forall>r pr. props_at ?d ([0, 1, 0] @ r) = Some pr
                 \<and> (r = [] \<or> \<not> matches [AttrContains ''name'' ''__prefix__''] pr) \<longrightarrow>
             map_option attrs (props_at d' ([0, 0, 1] @ 2 # r)) = Some (attrs pr)"
    by (elim exE conjE)
  have c1: "map_option (\<lambda>pr. attr pr ''name'') (props_at d' [0, 0, 1, 2, 1])
             = Some (Some ''names-2-display'')"
    using r(2)[rule_format, of "[1]" pr _ "''names-''" "''-display''"] pr al s by simp
  have c2: "map_option (\<lambda>pr. attr pr ''id'') (props_at d' [0, 0, 1, 2, 1])
             = Some (Some ''id_names-2-display'')"
    using r(3)[rule_format, of "[1]" pr _ "''names-''" "''-display''" _ "''id_names-''" "''-display''"]
      pr al s by simp
  have c3: "map_option attrs (props_at d' [0, 0, 1, 2, 0])
             = Some [(''for'', ''id_names-__prefix__-display'')]"
    using r(4)[rule_format, of "[0]" lb] lb by (simp add: lb_def)
  show ?thesis using si bf al nmp r(1) c1 c2 c3 by blast
qed

text \<open>
  C2 as stated fails for an element that carries the placeholder in its id only: the
  wrapper of the blueprint row has the id \<open>row-names-__prefix__\<close> and no name, and its
  copy in the new row keeps that id, next to a control that was renamed.
\<close>

theorem addEmptyForm_id_only_counterexample:
  "sel_at (formset_doc ''4'' wrapped_blueprint) [AttrContains ''id'' ''__prefix__''] [0, 1, 0, 0]
   \<and> (case addEmptyForm (formset_doc ''4'' wrapped_blueprint) ''name'' [0, 0, 2, 0] of
         Some (Normal (d', log)) \<Rightarrow>
           map_option (\<lambda>pr. attr pr ''name'') (props_at d' [0, 0, 1, 2, 0, 0])
             = Some (Some ''names-2-display'')
           \<and> map_option (\<lambda>pr. attr pr ''id'') (props_at d' [0, 0, 1, 2, 0])
               = Some (Some ''row-names-__prefix__'')
       | _ \<Rightarrow> False)"
  by code_simp

section \<open>When the add control is hidden\<close>

text \<open>
  C3, as the code has it. With \<open>totalRows\<close> the value of the counter before the call,
  \<open>addEmptyForm\<close> hides the label around the add control exactly when
  \<open>totalRows + 1 \<ge> maxRows\<close>, that is when the call itself brings the counter to the
  bound; when \<open>totalRows + 1 < maxRows\<close> the label keeps the visibility it had. This
  holds whether the call ends normally or with an exception.
\<close>

theorem addEmptyForm_hides_add_control:
  assumes "to_number (attr_of d (children d (getManagementFormContainer d [ctx])
                  [Tag ''input'', AttrEnds ''name'' ''MAX_NUM_FORMS'']) ''value'') = Some (Num maxRows)"
    and "to_number (attr_of d (children d (getManagementFormContainer d [ctx])
                  [Tag ''input'', AttrEnds ''name'' ''TOTAL_FORMS'']) ''value'') = Some (Num totalRows)"
    and "lp \<in> set (parent d [ctx] [Tag ''label''])"
  shows "\<exists>c. addEmptyForm d formType ctx = Some c
           \<and> (maxRows \<le> totalRows + 1 \<longrightarrow>
                 map_option hidden (props_at (fst (state_of c)) lp) = Some True)
           \<and> (totalRows + 1 < maxRows \<longrightarrow>
                 map_option hidden (props_at (fst (state_of c)) lp)
                   = map_option hidden (props_at d lp))"
proof -
  have ex: "props_at d lp \<noteq> None"
    using assms(3) by (simp add: parent_def elements_mem)
  from addEmptyForm_frame[OF assms(1,2) _ ex, of hidden formType]
  obtain c where c: "addEmptyForm d formType ctx = Some c"
    "map_option hidden (props_at (fst (state_of c)) lp)
       = map_option hidden (props_at (if js_ge (js_succ (Num totalRows)) (Num maxRows)
                                    then each d (parent d [ctx] [Tag ''label'']) hide_elem else d) lp)"
    by (auto simp: set_attr_def)
  have "map_option hidden (props_at (each d (parent d [ctx] [Tag ''label'']) hide_elem) lp) = Some True"
    using ex assms(3) by (auto simp: props_at_each)
  then show ?thesis using c by auto
qed

theorem addEmptyForm_hides_add_control_witness:
  "to_number (attr_of (formset_doc ''3'' name_blueprint)
      (children (formset_doc ''3'' name_blueprint)
         (getManagementFormContainer (formset_doc ''3'' name_blueprint) [[0, 0, 2, 0]])
         [Tag ''input'', AttrEnds ''name'' ''MAX_NUM_FORMS'']) ''value'') = Some (Num 3)
   \<and> to_number (attr_of (formset_doc ''3'' name_blueprint)
      (children (formset_doc ''3'' name_blueprint)
         (getManagementFormContainer (formset_doc ''3'' name_blueprint) [[0, 0, 2, 0]])
         [Tag ''input'', AttrEnds ''name'' ''TOTAL_FORMS'']) ''value'') = Some (Num 2)
   \<and> parent (formset_doc ''3'' name_blueprint) [[0, 0, 2, 0]] [Tag ''label''] = [[0, 0, 2]]
   \<and> map_option hidden (props_at (formset_doc ''3'' name_blueprint) [0, 0, 2]) = Some False
   \<and> (\<exists>c. addEmptyForm (formset_doc ''3'' name_blueprint) ''name'' [0, 0, 2, 0] = Some c
          \<and> map_option hidden (props_at (fst (state_of c)) [0, 0, 2]) = Some True)"
proof -
  have m: "to_number (attr_of (formset_doc ''3'' name_blueprint)
      (children (formset_doc ''3'' name_blueprint)
         (getManagementFormContainer (formset_doc ''3'' name_blueprint) [[0, 0, 2, 0]])
         [Tag ''input'', AttrEnds ''name'' ''MAX_NUM_FORMS'']) ''value'') = Some (Num 3)"
    by code_simp
  have n: "to_number (attr_of (formset_doc ''3'' name_blueprint)
      (children (formset_doc ''3'' name_blueprint)
         (getManagementFormContainer (formset_doc ''3'' name_blueprint) [[0, 0, 2, 0]])
         [Tag ''input'', AttrEnds ''name'' ''TOTAL_FORMS'']) ''value'') = Some (Num 2)"
    by code_simp
  have l: "parent (formset_doc ''3'' name_blueprint) [[0, 0, 2, 0]] [Tag ''label''] = [[0, 0, 2]]"
    by code_simp
  have h: "map_option hidden (props_at (formset_doc ''3'' name_blueprint) [0, 0, 2]) = Some False"
    by code_simp
  have lp: "[0, 0, 2] \<in> set (parent (formset_doc ''3'' name_blueprint) [[0, 0, 2, 0]] [Tag ''label''])"
    by (simp add: l)
  show ?thesis
    using addEmptyForm_hides_add_control[OF m n lp, of "''name''"] m n l h by simp
qed

text \<open>
  C3 as stated fails: the control is not hidden one step before the bound. With two
  forms and a bound of four, the call leaves the counter at three, \<open>3 + 1 \<ge> 4\<close> holds
  after the increment, and the label is still shown.
\<close>

theorem addEmptyForm_not_pre_emptive_counterexample:
  "(case addEmptyForm (formset_doc ''4'' name_blueprint) ''name'' [0, 0, 2, 0] of
      Some (Normal (d', log)) \<Rightarrow>
        to_number (attr_of d' [[0, 0, 0, 0]] ''value'') = Some (Num 3)
        \<and> to_number (attr_of d' [[0, 0, 0, 1]] ''value'') = Some (Num 4)
        \<and> js_ge (js_succ (Num 3)) (Num 4)
        \<and> map_option hidden (props_at d' [0, 0, 2]) = Some False
    | _ \<Rightarrow> False)"
  by code_simp

section \<open>Choosing the primary record\<close>

text \<open>
  C4, as the code has it. When the clicked primary-record radio button is checked, the
  handler clears every checked radio button in the duplicate cell that follows the
  primary cell of the clicked row, the row that has just become primary, and marks the
  labels of that cell \<open>disabled\<close>. The label children of every other duplicate cell
  lose the class \<open>disabled\<close> and are shown. No other control changes its checked
  state: a merge choice in the cell of the row that was primary before stays.
\<close>

theorem primary_record_click_effect:
  assumes "is_sel d [t] [PseudoChecked]"
  shows "find_in (primary_record_click d t)
           (next_sib (primary_record_click d t)
              (closest (primary_record_click d t) [t] [Cls ''primary-cell''])
              [Cls ''duplicate-cell''])
           [Tag ''input'', AttrEq ''type'' ''radio'', PseudoChecked] = []
       \<and> (\<forall>q \<in> set (children d (jq d [Cls ''duplicate-cell'']) [Tag ''label'']).
             q \<notin> set (children d
                        (next_sib d (closest d [t] [Cls ''primary-cell'']) [Cls ''duplicate-cell''])
                        [Tag ''label'']) \<longrightarrow>
             (\<exists>pr. props_at (primary_record_click d t) q = Some pr
                  \<and> \<not> hasClass ''disabled'' pr \<and> \<not> hidden pr))
       \<and> (\<forall>q \<in> set (children d
                        (next_sib d (closest d [t] [Cls ''primary-cell'']) [Cls ''duplicate-cell''])
                        [Tag ''label'']).
             \<exists>pr. props_at (primary_record_click d t) q = Some pr \<and> hasClass ''disabled'' pr)
       \<and> (\<forall>q. q \<notin> set (find_in d
                          (next_sib d (closest d [t] [Cls ''primary-cell'']) [Cls ''duplicate-cell''])
                          [Tag ''input'', AttrEq ''type'' ''radio'', PseudoChecked]) \<longrightarrow>
             map_option checked (props_at (primary_record_click d t) q)
               = map_option checked (props_at d q))"
  using primary_record_click_checked[OF assms] by blast

theorem primary_record_click_effect_witness:
  "is_sel dup_doc [[0, 0, 0, 1, 0, 0, 0]] [PseudoChecked]
   \<and> children dup_doc (jq dup_doc [Cls ''duplicate-cell'']) [Tag ''label'']
       = [[0, 0, 0, 0, 1, 1], [0, 0, 0, 0, 1, 3], [0, 0, 0, 1, 1, 1], [0, 0, 0, 1, 1, 3]]
   \<and> children dup_doc
        (next_sib dup_doc (closest dup_doc [[0, 0, 0, 1, 0, 0, 0]] [Cls ''primary-cell''])
           [Cls ''duplicate-cell''])
        [Tag ''label''] = [[0, 0, 0, 1, 1, 1], [0, 0, 0, 1, 1, 3]]
   \<and> find_in dup_doc
        (next_sib dup_doc (closest dup_doc [[0, 0, 0, 1, 0, 0, 0]] [Cls ''primary-cell''])
           [Cls ''duplicate-cell''])
        [Tag ''input'', AttrEq ''type'' ''radio'', PseudoChecked] = [[0, 0, 0, 1, 1, 0]]
   \<and> find_in (primary_record_click dup_doc [0, 0, 0, 1, 0, 0, 0])
        (next_sib (primary_record_click dup_doc [0, 0, 0, 1, 0, 0, 0])
           (closest (primary_record_click dup_doc [0, 0, 0, 1, 0, 0, 0]) [[0, 0, 0, 1, 0, 0, 0]]
              [Cls ''primary-cell''])
           [Cls ''duplicate-cell''])
        [Tag ''input'', AttrEq ''type'' ''radio'', PseudoChecked] = []
   \<and> (\<exists>pr. props_at (primary_record_click dup_doc [0, 0, 0, 1, 0, 0, 0]) [0, 0, 0, 0, 1, 1] = Some pr
          \<and> \<not> hasClass ''disabled'' pr \<and> \<not> hidden pr)
   \<and> (\<exists>pr. props_at (primary_record_click dup_doc [0, 0, 0, 1, 0, 0, 0]) [0, 0, 0, 1, 1, 1] = Some pr
          \<and> hasClass ''disabled'' pr)
   \<and> map_option checked (props_at (primary_record_click dup_doc [0, 0, 0, 1, 0, 0, 0]) [0, 0, 0, 0, 1, 0])
       = Some True"
proof -
  have h: "is_sel dup_doc [[0, 0, 0, 1, 0, 0, 0]] [PseudoChecked]" by code_simp
  have l: "children dup_doc (jq dup_doc [Cls ''duplicate-cell'']) [Tag ''label'']
       = [[0, 0, 0, 0, 1, 1], [0, 0, 0, 0, 1, 3], [0, 0, 0, 1, 1, 1], [0, 0, 0, 1, 1, 3]]"
    by code_simp
  have n: "children dup_doc
        (next_sib dup_doc (closest dup_doc [[0, 0, 0, 1, 0, 0, 0]] [Cls ''primary-cell''])
           [Cls ''duplicate-cell''])
        [Tag ''label''] = [[0, 0, 0, 1, 1, 1], [0, 0, 0, 1, 1, 3]]"
    by code_simp
  have f: "find_in dup_doc
        (next_sib dup_doc (closest dup_doc [[0, 0, 0, 1, 0, 0, 0]] [Cls ''primary-cell''])
           [Cls ''duplicate-cell''])
        [Tag ''input'', AttrEq ''type'' ''radio'', PseudoChecked] = [[0, 0, 0, 1, 1, 0]]"
    by code_simp
  have c: "map_option checked (props_at dup_doc [0, 0, 0, 0, 1, 0]) = Some True"
    by code_simp
  show ?thesis
    using primary_record_click_effect[OF h] h l n f c by simp
qed

text \<open>
  C4 as stated fails: the first row was primary (its cell carries \<open>border-left\<close>), the
  radio button of the second row is clicked and checked, and the checked merge choice
  in the duplicate cell of the first row is still checked after the handler.
\<close>

theorem primary_record_click_former_primary_counterexample:
  "is_sel dup_doc [[0, 0, 0, 1, 0, 0, 0]] [AttrEq ''name'' ''primary_record'', PseudoChecked]
   \<and> sel_at dup_doc [Cls ''primary-cell'', Cls ''border-left''] [0, 0, 0, 0, 0]
   \<and> next_sib dup_doc [[0, 0, 0, 0, 0]] [Cls ''duplicate-cell''] = [[0, 0, 0, 0, 1]]
   \<and> find_in (primary_record_click dup_doc [0, 0, 0, 1, 0, 0, 0]) [[0, 0, 0, 0, 1]]
        [Tag ''input'', AttrEq ''type'' ''radio'', PseudoChecked] = [[0, 0, 0, 0, 1, 0]]"
  by code_simp

section \<open>At most one sibling row keeps a checked flag\<close>

text \<open>
  C5. After the click handler of a preferred control has run, no sibling of the clicked
  row (the nearest enclosing fieldset of the control) holds a checked preferred control,
  so among the sibling rows only the clicked one can; the same holds for the authorised
  handler and the authorised controls. The two kinds are independent: the preferred
  handler leaves the checked state of every control alone whose name does not contain
  \<open>preferred\<close>, and likewise the authorised handler.
\<close>

theorem flag_click_exclusive:
  "(sel_at d [Tag ''input'', AttrContains ''name'' ''preferred''] t \<longrightarrow>
      find_in (preferred_click d t)
        (siblings (preferred_click d t) (closest (preferred_click d t) [t] [Tag ''fieldset'']))
        [Tag ''input'', AttrContains ''name'' ''preferred'', PseudoChecked] = [])
   \<and> (sel_at d [Tag ''input'', AttrContains ''name'' ''authorised''] t \<longrightarrow>
      find_in (authorised_click d t)
        (siblings (authorised_click d t) (closest (authorised_click d t) [t] [Tag ''fieldset'']))
        [Tag ''input'', AttrContains ''name'' ''authorised'', PseudoChecked] = [])
   \<and> (\<forall>q. \<not> sel_at d [AttrContains ''name'' ''preferred''] q \<longrightarrow>
         map_option checked (props_at (preferred_click d t) q) = map_option checked (props_at d q))
   \<and> (\<forall>q. \<not> sel_at d [AttrContains ''name'' ''authorised''] q \<longrightarrow>
         map_option checked (props_at (authorised_click d t) q) = map_option checked (props_at d q))"
  using flag_click_no_sibling_checked[of d t] flag_click_other_names[of d _ t] by blast

theorem flag_click_exclusive_witness:
  "sel_at flag_doc [Tag ''input'', AttrContains ''name'' ''preferred''] [0, 0, 1, 0]
   \<and> sel_at flag_doc [Tag ''input'', AttrContains ''name'' ''authorised''] [0, 0, 1, 1]
   \<and> find_in flag_doc (siblings flag_doc (closest flag_doc [[0, 0, 1, 0]] [Tag ''fieldset'']))
        [Tag ''input'', AttrContains ''name'' ''preferred'', PseudoChecked]
       = [[0, 0, 0, 0], [0, 0, 2, 0]]
   \<and> find_in (preferred_click flag_doc [0, 0, 1, 0])
        (siblings (preferred_click flag_doc [0, 0, 1, 0])
           (closest (preferred_click flag_doc [0, 0, 1, 0]) [[0, 0, 1, 0]] [Tag ''fieldset'']))
        [Tag ''input'', AttrContains ''name'' ''preferred'', PseudoChecked] = []
   \<and> find_in (authorised_click flag_doc [0, 0, 1, 1])
        (siblings (authorised_click flag_doc [0, 0, 1, 1])
           (closest (authorised_click flag_doc [0, 0, 1, 1]) [[0, 0, 1, 1]] [Tag ''fieldset'']))
        [Tag ''input'', AttrContains ''name'' ''authorised'', PseudoChecked] = []
   \<and> map_option checked (props_at (preferred_click flag_doc [0, 0, 1, 0]) [0, 0, 0, 1]) = Some True
   \<and> map_option checked (props_at (authorised_click flag_doc [0, 0, 1, 1]) [0, 0, 2, 0]) = Some True"
proof -
  have p: "sel_at flag_doc [Tag ''input'', AttrContains ''name'' ''preferred''] [0, 0, 1, 0]"
    by code_simp
  have a: "sel_at flag_doc [Tag ''input'', AttrContains ''name'' ''authorised''] [0, 0, 1, 1]"
    by code_simp
  have before: "find_in flag_doc (siblings flag_doc (closest flag_doc [[0, 0, 1, 0]] [Tag ''fieldset'']))
        [Tag ''input'', AttrContains ''name'' ''preferred'', PseudoChecked]
       = [[0, 0, 0, 0], [0, 0, 2, 0]]"
    by code_simp
  have np: "\<not> sel_at flag_doc [AttrContains ''name'' ''preferred''] [0, 0, 0, 1]"
    by code_simp
  have na: "\<not> sel_at flag_doc [AttrContains ''name'' ''authorised''] [0, 0, 2, 0]"
    by code_simp
  have c: "map_option checked (props_at flag_doc [0, 0, 0, 1]) = Some True"
    "map_option checked (props_at flag_doc [0, 0, 2, 0]) = Some True"
    by code_simp+
  show ?thesis
    using flag_click_exclusive[of flag_doc "[0, 0, 1, 0]"]
      flag_click_exclusive[of flag_doc "[0, 0, 1, 1]"] p a before np na c
    by simp
qed

section \<open>The transcriptions are rendered in stable order of their order field\<close>

lemma forEach_markup_concat:
  "forEach_markup i ts acc = acc @ concat (map (\<lambda>(j, t). field_markup j t) (enumerate i ts))"
  by (induction ts arbitrary: i acc) simp_all

text \<open>
  C7. When every \<open>order\<close> field parses to an integer, the loader renders the records
  sorted ascending by the parsed value of \<open>order\<close>: the rendered list is a permutation
  of the response, its keys ascend, records of equal key keep the order of the response,
  and the markup appended to the page is, record by record in that order, a hidden input
  whose value is the \<open>pk\<close> of the record and a text area that holds its transcription,
  both named with the position of the record in the sorted list. For the response of
  the specification, \<open>pk 2\<close> with order \<open>1\<close> then \<open>pk 1\<close> with order \<open>0\<close>, the
  markup is the fields of \<open>pk 1\<close> at position 0 followed by those of \<open>pk 2\<close> at
  position 1.
\<close>

theorem fetchTranscriptions_sorted_stable:
  assumes "\<forall>t \<in> set data. \<exists>n. parseInt (order t) = Some n \<and> \<bar>n\<bar> \<le> 2 ^ 53"
  shows "(\<exists>od. orderedData data = Some od
           \<and> mset od = mset data
           \<and> sorted (map order_key od)
           \<and> (\<forall>t \<in> set od. parseInt (order t) = Some (order_key t))
           \<and> (\<forall>k. filter (\<lambda>t. order_key t = k) od = filter (\<lambda>t. order_key t = k) data)
           \<and> fetchTranscriptions data
               = Some (concat (map (\<lambda>(i, t).
     ''<input type=\"hidden\" name=\"transcription-'' @ nat_to_string i @ ''-id\" value=\"''
       @ int_to_string (pk t) @ ''\" id=\"id_transcription-'' @ nat_to_string i
       @ ''-id\" aria-label=\"input field\">'' @ [CHR 0x0A] @ replicate 28 CHR '' ''
       @ ''<textarea name=\"transcription-'' @ nat_to_string i
       @ ''-transcription\" class=\"richtext-transcription\" rows=\"8\" id=\"id_transcription-''
       @ nat_to_string i @ ''-transcription\" cols=\"40\" aria-label=\"richtext field\">''
       @ transcription_text t @ ''</textarea>'')
                    (enumerate 0 od))))
    \<and> map_option (map pk)
           (orderedData [\<lparr>pk = 2, order = ''1'', transcription_text = a\<rparr>,
                         \<lparr>pk = 1, order = ''0'', transcription_text = b\<rparr>]) = Some [1, 2]
    \<and> fetchTranscriptions [\<lparr>pk = 2, order = ''1'', transcription_text = a\<rparr>,
                            \<lparr>pk = 1, order = ''0'', transcription_text = b\<rparr>]
         = Some (''<input type=\"hidden\" name=\"transcription-0-id\" value=\"1\" id=\"id_transcription-0-id\" aria-label=\"input field\">''
       @ [CHR 0x0A] @ replicate 28 CHR '' ''
       @ ''<textarea name=\"transcription-0-transcription\" class=\"richtext-transcription\" rows=\"8\" id=\"id_transcription-0-transcription\" cols=\"40\" aria-label=\"richtext field\">''
       @ b @ ''</textarea>''
       @ ''<input type=\"hidden\" name=\"transcription-1-id\" value=\"2\" id=\"id_transcription-1-id\" aria-label=\"input field\">''
       @ [CHR 0x0A] @ replicate 28 CHR '' ''
       @ ''<textarea name=\"transcription-1-transcription\" class=\"richtext-transcription\" rows=\"8\" id=\"id_transcription-1-transcription\" cols=\"40\" aria-label=\"richtext field\">''
       @ a @ ''</textarea>'')"
proof -
  have all: "list_all (\<lambda>t. parseInt (order t) \<noteq> None) data"
    using assms by (auto simp: list_all_iff)
  have od: "orderedData data = Some (sort_key order_key data)"
    using all by (simp add: orderedData_def)
  have keys: "\<forall>t \<in> set (sort_key order_key data). parseInt (order t) = Some (order_key t)"
    using assms by (auto simp: order_key_def)
  have stable: "\<forall>k. filter (\<lambda>t. order_key t = k) (sort_key order_key data)
                  = filter (\<lambda>t. order_key t = k) data"
    by (simp add: sort_key_stable)
  have markup: "fetchTranscriptions data
      = Some (concat (map (\<lambda>(i, t). field_markup i t) (enumerate 0 (sort_key order_key data))))"
    by (simp add: fetchTranscriptions_def od forEach_markup_concat)
  have general: "\<exists>od. orderedData data = Some od
           \<and> mset od = mset data
           \<and> sorted (map order_key od)
           \<and> (\<forall>t \<in> set od. parseInt (order t) = Some (order_key t))
           \<and> (\<forall>k. filter (\<lambda>t. order_key t = k) od = filter (\<lambda>t. order_key t = k) data)
           \<and> fetchTranscriptions data
               = Some (concat (map (\<lambda>(i, t).
     ''<input type=\"hidden\" name=\"transcription-'' @ nat_to_string i @ ''-id\" value=\"''
       @ int_to_string (pk t) @ ''\" id=\"id_transcription-'' @ nat_to_string i
       @ ''-id\" aria-label=\"input field\">'' @ [CHR 0x0A] @ replicate 28 CHR '' ''
       @ ''<textarea name=\"transcription-'' @ nat_to_string i
       @ ''-transcription\" class=\"richtext-transcription\" rows=\"8\" id=\"id_transcription-''
       @ nat_to_string i @ ''-transcription\" cols=\"40\" aria-label=\"richtext field\">''
       @ transcription_text t @ ''</textarea>'')
                    (enumerate 0 od)))"
    using od keys stable markup unfolding field_markup_def by simp
  have p1: "parseInt ''1'' = Some 1" by code_simp
  have p0: "parseInt ''0'' = Some 0" by code_simp
  have ex_od: "orderedData [\<lparr>pk = 2, order = ''1'', transcription_text = a\<rparr>,
                         \<lparr>pk = 1, order = ''0'', transcription_text = b\<rparr>]
      = Some [\<lparr>pk = 1, order = ''0'', transcription_text = b\<rparr>,
              \<lparr>pk = 2, order = ''1'', transcription_text = a\<rparr>]"
    by (simp add: orderedData_def order_key_def p1 p0)
  have example: "map_option (map pk)
           (orderedData [\<lparr>pk = 2, order = ''1'', transcription_text = a\<rparr>,
                         \<lparr>pk = 1, order = ''0'', transcription_text = b\<rparr>]) = Some [1, 2]"
    by (simp add: ex_od)
  have s: "nat_to_string 0 = ''0''" "nat_to_string (Suc 0) = ''1''"
      "int_to_string 1 = ''1''" "int_to_string 2 = ''2''"
    by code_simp+
  have rendered: "fetchTranscriptions [\<lparr>pk = 2, order = ''1'', transcription_text = a\<rparr>,
                            \<lparr>pk = 1, order = ''0'', transcription_text = b\<rparr>]
         = Some (''<input type=\"hidden\" name=\"transcription-0-id\" value=\"1\" id=\"id_transcription-0-id\" aria-label=\"input field\">''
       @ [CHR 0x0A] @ replicate 28 CHR '' ''
       @ ''<textarea name=\"transcription-0-transcription\" class=\"richtext-transcription\" rows=\"8\" id=\"id_transcription-0-transcription\" cols=\"40\" aria-label=\"richtext field\">''
       @ b @ ''</textarea>''
       @ ''<input type=\"hidden\" name=\"transcription-1-id\" value=\"2\" id=\"id_transcription-1-id\" aria-label=\"input field\">''
       @ [CHR 0x0A] @ replicate 28 CHR '' ''
       @ ''<textarea name=\"transcription-1-transcription\" class=\"richtext-transcription\" rows=\"8\" id=\"id_transcription-1-transcription\" cols=\"40\" aria-label=\"richtext field\">''
       @ a @ ''</textarea>'')"
    by (simp add: fetchTranscriptions_def ex_od field_markup_def s)
  show ?thesis using general example rendered by blast
qed

theorem fetchTranscriptions_sorted_stable_witness:
  "list_all (\<lambda>t. \<exists>n. parseInt (order t) = Some n \<and> \<bar>n\<bar> \<le> 2 ^ 53) transcription_data
   \<and> (\<exists>od. orderedData transcription_data = Some od
         \<and> map pk od = [7, 5, 9]
         \<and> sorted (map order_key od)
         \<and> fetchTranscriptions transcription_data
             = Some (''<input type=\"hidden\" name=\"transcription-0-id\" value=\"7\" id=\"id_transcription-0-id\" aria-label=\"input field\">''
       @ [CHR 0x0A] @ replicate 28 CHR '' ''
       @ ''<textarea name=\"transcription-0-transcription\" class=\"richtext-transcription\" rows=\"8\" id=\"id_transcription-0-transcription\" cols=\"40\" aria-label=\"richtext field\">''
       @ ''b'' @ ''</textarea>''
       @ ''<input type=\"hidden\" name=\"transcription-1-id\" value=\"5\" id=\"id_transcription-1-id\" aria-label=\"input field\">''
       @ [CHR 0x0A] @ replicate 28 CHR '' ''
       @ ''<textarea name=\"transcription-1-transcription\" class=\"richtext-transcription\" rows=\"8\" id=\"id_transcription-1-transcription\" cols=\"40\" aria-label=\"richtext field\">''
       @ ''c'' @ ''</textarea>''
       @ ''<input type=\"hidden\" name=\"transcription-2-id\" value=\"9\" id=\"id_transcription-2-id\" aria-label=\"input field\">''
       @ [CHR 0x0A] @ replicate 28 CHR '' ''
       @ ''<textarea name=\"transcription-2-transcription\" class=\"richtext-transcription\" rows=\"8\" id=\"id_transcription-2-transcription\" cols=\"40\" aria-label=\"richtext field\">''
       @ ''a'' @ ''</textarea>''))"
proof -
  have p: "parseInt ''2'' = Some 2" "parseInt '' 1'' = Some 1" "parseInt ''1'' = Some 1"
    by code_simp+
  have h: "\<forall>t \<in> set transcription_data. \<exists>n. parseInt (order t) = Some n \<and> \<bar>n\<bar> \<le> 2 ^ 53"
    by (simp add: transcription_data_def p)
  have hl: "list_all (\<lambda>t. \<exists>n. parseInt (order t) = Some n \<and> \<bar>n\<bar> \<le> 2 ^ 53) transcription_data"
    using h by (simp add: list_all_iff)
  have od: "orderedData transcription_data
      = Some [\<lparr>pk = 7, order = '' 1'', transcription_text = ''b''\<rparr>,
              \<lparr>pk = 5, order = ''1'', transcription_text = ''c''\<rparr>,
              \<lparr>pk = 9, order = ''2'', transcription_text = ''a''\<rparr>]"
    by (simp add: transcription_data_def orderedData_def order_key_def p)
  note th = fetchTranscriptions_sorted_stable[OF h, THEN conjunct1]
  then obtain od' where o: "orderedData transcription_data = Some od'"
      "sorted (map order_key od')"
    by (elim exE conjE)
  have e: "od' = [\<lparr>pk = 7, order = '' 1'', transcription_text = ''b''\<rparr>,
              \<lparr>pk = 5, order = ''1'', transcription_text = ''c''\<rparr>,
              \<lparr>pk = 9, order = ''2'', transcription_text = ''a''\<rparr>]"
    using o(1) od by simp
  have pks: "map pk od' = [7, 5, 9]" by (simp add: e)
  have out: "fetchTranscriptions transcription_data
             = Some (''<input type=\"hidden\" name=\"transcription-0-id\" value=\"7\" id=\"id_transcription-0-id\" aria-label=\"input field\">''
       @ [CHR 0x0A] @ replicate 28 CHR '' ''
       @ ''<textarea name=\"transcription-0-transcription\" class=\"richtext-transcription\" rows=\"8\" id=\"id_transcription-0-transcription\" cols=\"40\" aria-label=\"richtext field\">''
       @ ''b'' @ ''</textarea>''
       @ ''<input type=\"hidden\" name=\"transcription-1-id\" value=\"5\" id=\"id_transcription-1-id\" aria-label=\"input field\">''
       @ [CHR 0x0A] @ replicate 28 CHR '' ''
       @ ''<textarea name=\"transcription-1-transcription\" class=\"richtext-transcription\" rows=\"8\" id=\"id_transcription-1-transcription\" cols=\"40\" aria-label=\"richtext field\">''
       @ ''c'' @ ''</textarea>''
       @ ''<input type=\"hidden\" name=\"transcription-2-id\" value=\"9\" id=\"id_transcription-2-id\" aria-label=\"input field\">''
       @ [CHR 0x0A] @ replicate 28 CHR '' ''
       @ ''<textarea name=\"transcription-2-transcription\" class=\"richtext-transcription\" rows=\"8\" id=\"id_transcription-2-transcription\" cols=\"40\" aria-label=\"richtext field\">''
       @ ''a'' @ ''</textarea>'')"
    by code_simp
  show ?thesis
    apply (rule conjI)
    subgoal by (rule hl)
    apply (rule exI[of _ od'])
    apply (intro conjI)
    subgoal by (rule o(1))
    subgoal by (rule pks)
    subgoal by (rule o(2))
    subgoal by (rule out)
    done
qed

section \<open>Hiding a field leaves the form controls alone\<close>

text \<open>
  C8. \<open>deleteField\<close> changes no element's tag, \<open>checked\<close> state, written value or
  attribute other than \<open>class\<close>, and no text; it neither adds nor removes an element.
  The nearest match of \<open>toDelete\<close> from the trigger gets the class \<open>none\<close>, the
  label children of the nearest enclosing formset are shown, and every other element
  keeps all of its state.
\<close>

theorem deleteField_only_hides:
  "elements (deleteField d el sel) = elements d
   \<and> (\<forall>p. map_option tag (props_at (deleteField d el sel) p) = map_option tag (props_at d p)
         \<and> map_option checked (props_at (deleteField d el sel) p) = map_option checked (props_at d p)
         \<and> map_option dirty_value (props_at (deleteField d el sel) p)
             = map_option dirty_value (props_at d p)
         \<and> (\<forall>a. a \<noteq> ''class'' \<longrightarrow>
               map_option (\<lambda>pr. attr pr a) (props_at (deleteField d el sel) p)
                 = map_option (\<lambda>pr. attr pr a) (props_at d p))
         \<and> (\<forall>s. node_at (deleteField d el sel) p = Some (Text s) \<longleftrightarrow> node_at d p = Some (Text s)))
   \<and> (\<forall>p \<in> set (closest d [el] sel).
         \<exists>pr. props_at (deleteField d el sel) p = Some pr \<and> hasClass ''none'' pr)
   \<and> (\<forall>p \<in> set (children d (first (parents d [el] [Cls ''formset''])) [Tag ''label'']).
         \<exists>pr. props_at (deleteField d el sel) p = Some pr \<and> \<not> hidden pr)
   \<and> (\<forall>p. p \<notin> set (closest d [el] sel)
         \<and> p \<notin> set (children d (first (parents d [el] [Cls ''formset''])) [Tag ''label''])
         \<longrightarrow> props_at (deleteField d el sel) p = props_at d p)"
proof -
  let ?S1 = "closest d [el] sel"
  let ?S2 = "children d (first (parents d [el] [Cls ''formset''])) [Tag ''label'']"
  let ?d1 = "each d ?S1 (addClass ''none'')"
  have eq: "deleteField d el sel = each ?d1 ?S2 show_elem" by (rule deleteField_sets)
  have inv: "map_option g (props_at (deleteField d el sel) p) = map_option g (props_at d p)"
    if "\<And>pr. g (show_elem pr) = g pr" "\<And>pr. g (addClass ''none'' pr) = g pr" for g :: "props \<Rightarrow> 'a" and p
    using that by (simp add: eq props_at_each_inv)
  have frame: "map_option tag (props_at (deleteField d el sel) p) = map_option tag (props_at d p)
         \<and> map_option checked (props_at (deleteField d el sel) p) = map_option checked (props_at d p)
         \<and> map_option dirty_value (props_at (deleteField d el sel) p)
             = map_option dirty_value (props_at d p)
         \<and> (\<forall>a. a \<noteq> ''class'' \<longrightarrow>
               map_option (\<lambda>pr. attr pr a) (props_at (deleteField d el sel) p)
                 = map_option (\<lambda>pr. attr pr a) (props_at d p))
         \<and> (\<forall>s. node_at (deleteField d el sel) p = Some (Text s) \<longleftrightarrow> node_at d p = Some (Text s))" for p
    by (intro conjI allI impI inv) (simp_all add: eq node_at_text_each)
  have mem: "props_at d p \<noteq> None" if "p \<in> set (elements d)" for p
    using that by (simp add: elements_mem)
  have hides: "\<exists>pr. props_at (deleteField d el sel) p = Some pr \<and> hasClass ''none'' pr"
    if "p \<in> set ?S1" for p
  proof -
    from that have "p \<in> set (elements d)" by (simp add: closest_def)
    then obtain pr where pr: "props_at d p = Some pr" using mem by auto
    then show ?thesis using that
      by (auto simp: eq props_at_each hasClass_def class_list_addClass)
  qed
  have reveals: "\<exists>pr. props_at (deleteField d el sel) p = Some pr \<and> \<not> hidden pr"
    if "p \<in> set ?S2" for p
  proof -
    from that have "p \<in> set (elements d)" by (simp add: children_def)
    then obtain pr where pr: "props_at d p = Some pr" using mem by auto
    then show ?thesis using that by (auto simp: eq props_at_each)
  qed
  have rest: "props_at (deleteField d el sel) p = props_at d p" if "p \<notin> set ?S1" "p \<notin> set ?S2" for p
    using that by (simp add: eq props_at_each)
  show ?thesis using frame hides reveals rest by (simp add: eq)
qed

theorem deleteField_only_hides_witness:
  "closest field_doc [[0, 0, 1, 1]] [Has ''data-form-type''] = [[0, 0, 1]]
   \<and> children field_doc (first (parents field_doc [[0, 0, 1, 1]] [Cls ''formset''])) [Tag ''label'']
       = [[0, 0, 0]]
   \<and> (\<exists>pr. props_at (deleteField field_doc [0, 0, 1, 1] [Has ''data-form-type'']) [0, 0, 1] = Some pr
          \<and> hasClass ''none'' pr)
   \<and> (\<exists>pr. props_at (deleteField field_doc [0, 0, 1, 1] [Has ''data-form-type'']) [0, 0, 0] = Some pr
          \<and> \<not> hidden pr)
   \<and> map_option checked (props_at (deleteField field_doc [0, 0, 1, 1] [Has ''data-form-type'']) [0, 0, 1, 0])
       = Some True"
proof -
  have s1: "closest field_doc [[0, 0, 1, 1]] [Has ''data-form-type''] = [[0, 0, 1]]"
    by code_simp
  have s2: "children field_doc (first (parents field_doc [[0, 0, 1, 1]] [Cls ''formset''])) [Tag ''label'']
       = [[0, 0, 0]]"
    by code_simp
  have c: "map_option checked (props_at field_doc [0, 0, 1, 0]) = Some True"
    by code_simp
  show ?thesis
    using deleteField_only_hides[of field_doc "[0, 0, 1, 1]" "[Has ''data-form-type'']"] s1 s2 c
    by simp
qed

section \<open>A click on a flag always leaves it checked\<close>

text \<open>
  C9, as the code has it. For a click on a preferred control that lies in a row (it has
  an enclosing fieldset) and is not a radio button (a check box, or any other input),
  the control is checked after the handler has run, whatever its state was when the
  handler started: clicking a checked flag again does not clear it. The same holds for
  the authorised handler and an authorised control.
\<close>

theorem flag_click_rechecks:
  assumes "closest d [t] [Tag ''fieldset''] \<noteq> []" and "\<not> sel_at d [PseudoRadio] t"
  shows "(sel_at d [Tag ''input'', AttrContains ''name'' ''preferred''] t \<longrightarrow>
            map_option checked (props_at (preferred_click d t) t) = Some True)
       \<and> (sel_at d [Tag ''input'', AttrContains ''name'' ''authorised''] t \<longrightarrow>
            map_option checked (props_at (authorised_click d t) t) = Some True)"
proof (intro conjI impI)
  assume t: "sel_at d [Tag ''input'', AttrContains ''name'' ''preferred''] t"
  show "map_option checked (props_at (preferred_click d t) t) = Some True"
    unfolding preferred_click_unfold Let_def
    by (subst border_tail_inv) (simp_all add: flag_core_checked[OF t assms])
next
  assume t: "sel_at d [Tag ''input'', AttrContains ''name'' ''authorised''] t"
  show "map_option checked (props_at (authorised_click d t) t) = Some True"
    unfolding authorised_click_unfold Let_def
    by (subst border_tail_inv) (simp_all add: flag_core_checked[OF t assms])
qed

theorem flag_click_rechecks_witness:
  "closest unchecked_flag_doc [[0, 0, 0]] [Tag ''fieldset''] = [[0, 0]]
   \<and> \<not> sel_at unchecked_flag_doc [PseudoRadio] [0, 0, 0]
   \<and> sel_at unchecked_flag_doc [Tag ''input'', AttrContains ''name'' ''preferred''] [0, 0, 0]
   \<and> map_option checked (props_at unchecked_flag_doc [0, 0, 0]) = Some False
   \<and> map_option checked (props_at (preferred_click unchecked_flag_doc [0, 0, 0]) [0, 0, 0])
       = Some True
   \<and> closest unchecked_flag_doc [[0, 0, 1]] [Tag ''fieldset''] = [[0, 0]]
   \<and> \<not> sel_at unchecked_flag_doc [PseudoRadio] [0, 0, 1]
   \<and> sel_at unchecked_flag_doc [Tag ''input'', AttrContains ''name'' ''authorised''] [0, 0, 1]
   \<and> map_option checked (props_at unchecked_flag_doc [0, 0, 1]) = Some False
   \<and> map_option checked (props_at (authorised_click unchecked_flag_doc [0, 0, 1]) [0, 0, 1])
       = Some True"
proof -
  have c: "closest unchecked_flag_doc [[0, 0, 0]] [Tag ''fieldset''] = [[0, 0]]"
      "closest unchecked_flag_doc [[0, 0, 1]] [Tag ''fieldset''] = [[0, 0]]"
    by code_simp+
  have r: "\<not> sel_at unchecked_flag_doc [PseudoRadio] [0, 0, 0]"
      "\<not> sel_at unchecked_flag_doc [PseudoRadio] [0, 0, 1]"
    by code_simp+
  have s: "sel_at unchecked_flag_doc [Tag ''input'', AttrContains ''name'' ''preferred''] [0, 0, 0]"
      "sel_at unchecked_flag_doc [Tag ''input'', AttrContains ''name'' ''authorised''] [0, 0, 1]"
    by code_simp+
  have b: "map_option checked (props_at unchecked_flag_doc [0, 0, 0]) = Some False"
      "map_option checked (props_at unchecked_flag_doc [0, 0, 1]) = Some False"
    by code_simp+
  have n: "closest unchecked_flag_doc [[0, 0, 0]] [Tag ''fieldset''] \<noteq> []"
      "closest unchecked_flag_doc [[0, 0, 1]] [Tag ''fieldset''] \<noteq> []"
    using c by simp_all
  show ?thesis
    using flag_click_rechecks[OF n(1) r(1)] flag_click_rechecks[OF n(2) r(2)] c r s b
    by simp
qed

text \<open>
  C9 as stated, for every click, fails for radio buttons: the handler checks every
  matching input of the row in turn, and checking a radio button clears the others of
  its group. In a row with two preferred radio buttons of one name the click on the
  first, which the browser has checked, ends with the first cleared and the second
  checked.
\<close>

theorem flag_click_radio_counterexample:
  "sel_at radio_flag_doc [Tag ''input'', AttrContains ''name'' ''preferred''] [0, 0, 0]
   \<and> closest radio_flag_doc [[0, 0, 0]] [Tag ''fieldset''] = [[0, 0]]
   \<and> map_option checked (props_at radio_flag_doc [0, 0, 0]) = Some True
   \<and> map_option checked (props_at (preferred_click radio_flag_doc [0, 0, 0]) [0, 0, 0])
       = Some False
   \<and> map_option checked (props_at (preferred_click radio_flag_doc [0, 0, 0]) [0, 0, 1])
       = Some True"
  by code_simp

end
